theory Spec2Isabelle
  imports Main "HOL-Library.Char_ord" "HOL-Library.List_Lexorder"
begin

section \<open>JSON values and Python's \<open>json\<close> module\<close>

text \<open>
  The three programs exchange Python objects that \<open>json.load\<close> produces and
  \<open>json.dump\<close> consumes. A \<open>dict\<close> keeps its insertion order and has distinct
  keys, so it is an association list. Strings are Python \<open>str\<close> values whose code
  points are below 256 (one \<open>char\<close> per code point). Numbers are Python \<open>int\<close>s:
  float literals, \<open>NaN\<close> and \<open>Infinity\<close> lie outside this development, and the
  decoder below rejects them.
\<close>

datatype json =
    JNull
  | JBool bool
  | JInt int
  | JStr string
  | JArr "json list"
  | JObj "(string \<times> json) list"

subsection \<open>Encoding: \<open>json.dumps(obj, separators=(",", ":"), sort_keys=True)\<close>\<close>

definition hex_digit :: "nat \<Rightarrow> char" where
  "hex_digit n = ''0123456789abcdef'' ! n"

text \<open>
  \<open>ensure_ascii\<close> is left at its default: a quote, a backslash and every character
  outside \<open>' '..'~'\<close> is escaped; the five short escapes first, \<open>\u00xx\<close> otherwise.
\<close>

definition escape_char :: "char \<Rightarrow> string" where
  "escape_char c =
     (if c = CHR 0x22 then [CHR 0x5C, CHR 0x22]
      else if c = CHR 0x5C then [CHR 0x5C, CHR 0x5C]
      else if c = CHR 0x0A then [CHR 0x5C, CHR ''n'']
      else if c = CHR 0x0D then [CHR 0x5C, CHR ''r'']
      else if c = CHR 0x09 then [CHR 0x5C, CHR ''t'']
      else if c = CHR 0x08 then [CHR 0x5C, CHR ''b'']
      else if c = CHR 0x0C then [CHR 0x5C, CHR ''f'']
      else if 32 \<le> (of_char c :: nat) \<and> (of_char c :: nat) \<le> 126 then [c]
      else [CHR 0x5C, CHR ''u'', CHR ''0'', CHR ''0'',
            hex_digit ((of_char c :: nat) div 16), hex_digit ((of_char c :: nat) mod 16)])"

definition encode_str :: "string \<Rightarrow> string" where
  "encode_str s = CHR 0x22 # concat (map escape_char s) @ [CHR 0x22]"

definition digit_char :: "nat \<Rightarrow> char" where
  "digit_char d = ''0123456789'' ! d"

text \<open>The decimal numeral that \<open>repr\<close> gives for an \<open>int\<close>.\<close>

function digits :: "nat \<Rightarrow> string" where
  "digits n = (if n < 10 then [digit_char n]
               else digits (n div 10) @ [digit_char (n mod 10)])"
  by pat_completeness auto
termination
  by (relation "measure id") auto

declare digits.simps [simp del]

definition encode_int :: "int \<Rightarrow> string" where
  "encode_int i = (if i < 0 then CHR ''-'' # digits (nat (- i)) else digits (nat i))"

fun join_with :: "string \<Rightarrow> string list \<Rightarrow> string" where
  "join_with sep [] = []"
| "join_with sep [x] = x"
| "join_with sep (x # y # ys) = x @ sep @ join_with sep (y # ys)"

text \<open>
  \<open>sort_keys=True\<close> makes the encoder walk \<open>sorted(dct.items())\<close> at every
  dictionary; the keys of a dictionary are distinct, so the order is that of the keys.
\<close>

fun dumps :: "json \<Rightarrow> string" where
  "dumps JNull = ''null''"
| "dumps (JBool b) = (if b then ''true'' else ''false'')"
| "dumps (JInt i) = encode_int i"
| "dumps (JStr s) = encode_str s"
| "dumps (JArr xs) = ''['' @ join_with '','' (map dumps xs) @ '']''"
| "dumps (JObj kvs) =
     ''{'' @ join_with '',''
              (map (\<lambda>(k, v). encode_str k @ '':'' @ dumps v) (sort_key fst kvs)) @ ''}''"

subsection \<open>Decoding: \<open>json.loads\<close>\<close>

definition is_ws :: "char \<Rightarrow> bool" where
  "is_ws c = (c = CHR '' '' \<or> c = CHR 0x09 \<or> c = CHR 0x0A \<or> c = CHR 0x0D)"

fun skip_ws :: "string \<Rightarrow> string" where
  "skip_ws [] = []"
| "skip_ws (c # cs) = (if is_ws c then skip_ws cs else c # cs)"

definition is_digit :: "char \<Rightarrow> bool" where
  "is_digit c = (48 \<le> (of_char c :: nat) \<and> (of_char c :: nat) \<le> 57)"

definition digit_val :: "char \<Rightarrow> nat" where
  "digit_val c = of_char c - 48"

definition nat_of_digits :: "string \<Rightarrow> nat" where
  "nat_of_digits ds = foldl (\<lambda>a c. 10 * a + digit_val c) 0 ds"

definition hex_val :: "char \<Rightarrow> nat option" where
  "hex_val c =
     (let n = (of_char c :: nat) in
      if 48 \<le> n \<and> n \<le> 57 then Some (n - 48)
      else if 97 \<le> n \<and> n \<le> 102 then Some (n - 87)
      else if 65 \<le> n \<and> n \<le> 70 then Some (n - 55)
      else None)"

text \<open>The table \<open>BACKSLASH\<close> of \<open>json.decoder\<close>.\<close>

definition unescape :: "char \<Rightarrow> char option" where
  "unescape e =
     (if e = CHR 0x22 then Some (CHR 0x22)
      else if e = CHR 0x5C then Some (CHR 0x5C)
      else if e = CHR ''/'' then Some (CHR ''/'')
      else if e = CHR ''b'' then Some (CHR 0x08)
      else if e = CHR ''f'' then Some (CHR 0x0C)
      else if e = CHR ''n'' then Some (CHR 0x0A)
      else if e = CHR ''r'' then Some (CHR 0x0D)
      else if e = CHR ''t'' then Some (CHR 0x09)
      else None)"

definition cons_str :: "char \<Rightarrow> (string \<times> string) option \<Rightarrow> (string \<times> string) option" where
  "cons_str c res = (case res of None \<Rightarrow> None | Some (t, r) \<Rightarrow> Some (c # t, r))"

text \<open>
  \<open>scanstring\<close> in strict mode, entered after the opening quote: it returns the
  decoded text and the input after the closing quote. A \<open>\uXXXX\<close> escape of a code
  point of 256 or more is outside the strings of this development.
\<close>

fun scan_string :: "string \<Rightarrow> (string \<times> string) option" where
  "scan_string [] = None"
| "scan_string (c # cs) =
     (if c = CHR 0x22 then Some ([], cs)
      else if c = CHR 0x5C then
        (case cs of
           [] \<Rightarrow> None
         | e # r \<Rightarrow>
             if e = CHR ''u'' then
               (case r of
                  h1 # h2 # h3 # h4 # r' \<Rightarrow>
                    (case (hex_val h1, hex_val h2, hex_val h3, hex_val h4) of
                       (Some a, Some b, Some c', Some d) \<Rightarrow>
                         (let n = ((a * 16 + b) * 16 + c') * 16 + d
                          in if n < 256 then cons_str (char_of n) (scan_string r') else None)
                     | _ \<Rightarrow> None)
                | _ \<Rightarrow> None)
             else (case unescape e of
                     None \<Rightarrow> None
                   | Some ch \<Rightarrow> cons_str ch (scan_string r)))
      else if (of_char c :: nat) < 32 then None
      else cons_str c (scan_string cs))"

text \<open>
  \<open>NUMBER_RE\<close> matches \<open>-?(0|[1-9][0-9]*)\<close> and then an optional fraction and
  exponent. With neither the literal is an \<open>int\<close>. A \<open>.\<close>, \<open>e\<close> or \<open>E\<close> after the
  integer part either starts a float (not modelled) or is a syntax error, for no
  value may be followed by one of them.
\<close>

definition finish_int :: "bool \<Rightarrow> nat \<Rightarrow> string \<Rightarrow> (json \<times> string) option" where
  "finish_int neg n r =
     (case r of
        [] \<Rightarrow> Some (JInt (if neg then - int n else int n), r)
      | c # _ \<Rightarrow>
          if c = CHR ''.'' \<or> c = CHR ''e'' \<or> c = CHR ''E'' then None
          else Some (JInt (if neg then - int n else int n), r))"

definition parse_unsigned :: "bool \<Rightarrow> string \<Rightarrow> (json \<times> string) option" where
  "parse_unsigned neg s =
     (case s of
        [] \<Rightarrow> None
      | c # r \<Rightarrow>
          if c = CHR ''0'' then finish_int neg 0 r
          else if is_digit c then
            finish_int neg (nat_of_digits (takeWhile is_digit s)) (dropWhile is_digit s)
          else None)"

definition parse_int :: "string \<Rightarrow> (json \<times> string) option" where
  "parse_int s =
     (case s of
        [] \<Rightarrow> None
      | c # r \<Rightarrow> if c = CHR ''-'' then parse_unsigned True r else parse_unsigned False s)"

text \<open>\<open>d[k] = v\<close> on a dictionary: an existing key keeps its place, a new one goes last.\<close>

fun dict_set :: "string \<Rightarrow> json \<Rightarrow> (string \<times> json) list \<Rightarrow> (string \<times> json) list" where
  "dict_set k v [] = [(k, v)]"
| "dict_set k v ((k', v') # d) = (if k' = k then (k, v) # d else (k', v') # dict_set k v d)"

text \<open>\<open>dict(pairs)\<close>: of two members with one key the later value wins.\<close>

definition dict_of_pairs :: "(string \<times> json) list \<Rightarrow> (string \<times> json) list" where
  "dict_of_pairs ps = foldl (\<lambda>d (k, v). dict_set k v d) [] ps"

text \<open>
  \<open>scan_once\<close>, \<open>JSONArray\<close> and \<open>JSONObject\<close>. \<open>parse_elems\<close> starts at the first
  element of a non-empty array and \<open>parse_members\<close> at the quote of a member's key.
  The tests on the lengths never fail (a value takes at least one character); they
  make the recursion well-founded.
\<close>

function parse_value :: "string \<Rightarrow> (json \<times> string) option"
  and parse_elems :: "string \<Rightarrow> (json list \<times> string) option"
  and parse_members :: "string \<Rightarrow> ((string \<times> json) list \<times> string) option"
where
  "parse_value s =
     (case s of
        [] \<Rightarrow> None
      | c # cs \<Rightarrow>
          if c = CHR 0x22 then
            (case scan_string cs of None \<Rightarrow> None | Some (t, r) \<Rightarrow> Some (JStr t, r))
          else if c = CHR ''{'' then
            (case skip_ws cs of
               [] \<Rightarrow> None
             | d # r \<Rightarrow>
                 if d = CHR ''}'' then Some (JObj [], r)
                 else (case parse_members (d # r) of
                         None \<Rightarrow> None
                       | Some (ps, r') \<Rightarrow> Some (JObj (dict_of_pairs ps), r')))
          else if c = CHR ''['' then
            (case skip_ws cs of
               [] \<Rightarrow> None
             | d # r \<Rightarrow>
                 if d = CHR '']'' then Some (JArr [], r)
                 else (case parse_elems (d # r) of
                         None \<Rightarrow> None
                       | Some (vs, r') \<Rightarrow> Some (JArr vs, r')))
          else if take 4 s = ''null'' then Some (JNull, drop 4 s)
          else if take 4 s = ''true'' then Some (JBool True, drop 4 s)
          else if take 5 s = ''false'' then Some (JBool False, drop 5 s)
          else parse_int s)"
| "parse_elems s =
     (case parse_value s of
        None \<Rightarrow> None
      | Some (v, r) \<Rightarrow>
          (case skip_ws r of
             [] \<Rightarrow> None
           | d # r1 \<Rightarrow>
               if d = CHR '']'' then Some ([v], r1)
               else if d = CHR '','' \<and> length r1 < length s then
                 (case parse_elems (skip_ws r1) of
                    None \<Rightarrow> None
                  | Some (vs, r2) \<Rightarrow> Some (v # vs, r2))
               else None))"
| "parse_members s =
     (case s of
        [] \<Rightarrow> None
      | q # cs \<Rightarrow>
          if q \<noteq> CHR 0x22 then None
          else
            (case scan_string cs of
               None \<Rightarrow> None
             | Some (k, r) \<Rightarrow>
                 (case skip_ws r of
                    [] \<Rightarrow> None
                  | c # r1 \<Rightarrow>
                      if c = CHR '':'' \<and> length r1 < length s then
                        (case parse_value (skip_ws r1) of
                           None \<Rightarrow> None
                         | Some (v, r2) \<Rightarrow>
                             (case skip_ws r2 of
                                [] \<Rightarrow> None
                              | d # r3 \<Rightarrow>
                                  if d = CHR ''}'' then Some ([(k, v)], r3)
                                  else if d = CHR '','' \<and> length r3 < length s then
                                    (case parse_members (skip_ws r3) of
                                       None \<Rightarrow> None
                                     | Some (ps, r4) \<Rightarrow> Some ((k, v) # ps, r4))
                                  else None))
                      else None)))"
  by pat_completeness auto
termination
proof -
  have len: "length (skip_ws s) \<le> length s" for s
    by (induction s) auto
  show ?thesis
  proof (relation "measure (\<lambda>x. case x of
                      Inl s \<Rightarrow> 2 * length s
                    | Inr (Inl s) \<Rightarrow> 2 * length s + 1
                    | Inr (Inr s) \<Rightarrow> 2 * length s + 1)", goal_cases)
    case 1
    show ?case by simp
  next
    case (2 s c cs d r)
    with len[of cs] show ?case by simp
  next
    case (3 s c cs d r)
    with len[of cs] show ?case by simp
  next
    case (4 s)
    show ?case by simp
  next
    case (5 s x v r d r1)
    with len[of r1] show ?case by simp
  next
    case (6 s q cs x k r c r1)
    with len[of r1] show ?case by simp
  next
    case (7 s q cs x k r c r1 y v r2 d r3)
    with len[of r3] show ?case by simp
  qed
qed

declare parse_value.simps [simp del] parse_elems.simps [simp del] parse_members.simps [simp del]

text \<open>
  \<open>json.loads\<close>: leading white space, one value, trailing white space, nothing else.
  \<open>None\<close> stands for \<open>JSONDecodeError\<close>.
\<close>

definition json_loads :: "string \<Rightarrow> json option" where
  "json_loads s =
     (case parse_value (skip_ws s) of
        None \<Rightarrow> None
      | Some (v, r) \<Rightarrow> if skip_ws r = [] then Some v else None)"

section \<open>The processes' environment\<close>

text \<open>
  Python exceptions. \<open>except Exception\<close> catches every class below except
  \<open>KeyboardInterrupt\<close> and \<open>SystemExit\<close>, which derive from \<open>BaseException\<close> only.
\<close>

datatype exn =
    JSONDecodeError
  | UnicodeDecodeError
  | OSError
  | RuntimeError
  | KeyboardInterrupt
  | SystemExit

definition is_Exception :: "exn \<Rightarrow> bool" where
  "is_Exception e = (e \<noteq> KeyboardInterrupt \<and> e \<noteq> SystemExit)"

text \<open>The lines the three programs print, by the \<open>print\<close> call that writes them.\<close>

datatype logline =
    PsmInitWarning exn
  | PsmNonObject
  | PsmInputsError exn
  | PsmOutputsError exn
  | InIgnoredPayload
  | InBadKeys "string list"
  | InWrote json
  | InNotJSON
  | InError exn
  | OutReadError exn
  | OutPublished string

text \<open>What a process does to the world outside it, in the order it does it.\<close>

datatype event =
    MkTemp string string
  | WriteFile string string
  | Flush string
  | Fsync string
  | CloseFile string
  | Replace string string
  | Print logline
  | PsmStart
  | PsmStop
  | SetVar string json
  | GetVar string
  | Publish string string

text \<open>
  The file system is a map from paths to contents. \<open>faults\<close> is what the operating
  system will answer to the coming file operations that can raise: each takes the
  head, and raises when it is \<open>Some e\<close>; past the end of the list nothing fails.
  \<open>temp_names\<close> are the names the generator of \<open>tempfile\<close> will draw.
\<close>

record world =
  files :: "string \<Rightarrow> string option"
  faults :: "exn option list"
  temp_names :: "string list"
  trace :: "event list"

definition emit :: "event \<Rightarrow> world \<Rightarrow> world" where
  "emit e w = w\<lparr>trace := trace w @ [e]\<rparr>"

definition next_fault :: "world \<Rightarrow> exn option \<times> world" where
  "next_fault w = (case faults w of [] \<Rightarrow> (None, w) | f # fs \<Rightarrow> (f, w\<lparr>faults := fs\<rparr>))"

subsection \<open>\<open>os.path\<close>\<close>

definition rstrip_sep :: "string \<Rightarrow> string" where
  "rstrip_sep s = rev (dropWhile (\<lambda>c. c = CHR ''/'') (rev s))"

text \<open>\<open>posixpath.dirname\<close>: up to the last separator; trailing separators go unless
  nothing else is there.\<close>

definition dirname :: "string \<Rightarrow> string" where
  "dirname p =
     (let head = rev (dropWhile (\<lambda>c. c \<noteq> CHR ''/'') (rev p))
      in if head \<noteq> [] \<and> \<not> list_all (\<lambda>c. c = CHR ''/'') head then rstrip_sep head else head)"

definition path_join :: "string \<Rightarrow> string \<Rightarrow> string" where
  "path_join a b =
     (if b \<noteq> [] \<and> hd b = CHR ''/'' then b
      else if a = [] \<or> last a = CHR ''/'' then a @ b
      else a @ ''/'' @ b)"

definition path_exists :: "string \<Rightarrow> world \<Rightarrow> bool" where
  "path_exists p w = (files w p \<noteq> None)"


text \<open>\<open>with open(path, "r") as f: ... f.read()\<close>: opening can fail, and so can reading.\<close>

definition read_text :: "string \<Rightarrow> world \<Rightarrow> (exn + string) \<times> world" where
  "read_text p w =
     (case next_fault w of
        (Some e, w1) \<Rightarrow> (Inl e, w1)
      | (None, w1) \<Rightarrow>
          (case files w1 p of
             None \<Rightarrow> (Inl OSError, w1)
           | Some c \<Rightarrow>
               (case next_fault w1 of
                  (Some e, w2) \<Rightarrow> (Inl e, w2)
                | (None, w2) \<Rightarrow> (Inr c, w2))))"

subsection \<open>\<open>tempfile.NamedTemporaryFile("w", dir=directory, delete=False)\<close>\<close>

definition temp_path :: "string \<Rightarrow> string \<Rightarrow> string" where
  "temp_path directory name = path_join directory (''tmp'' @ name)"

text \<open>
  The generator's names are tried in turn until one names no existing file; when
  none is left the call raises \<open>FileExistsError\<close>, an \<open>OSError\<close>.
\<close>

definition named_temporary_file :: "string \<Rightarrow> world \<Rightarrow> (exn + string) \<times> world" where
  "named_temporary_file directory w =
     (case next_fault w of
        (Some e, w1) \<Rightarrow> (Inl e, w1)
      | (None, w1) \<Rightarrow>
          (case dropWhile (\<lambda>n. files w1 (temp_path directory n) \<noteq> None) (temp_names w1) of
             [] \<Rightarrow> (Inl OSError, w1\<lparr>temp_names := []\<rparr>)
           | n # ns \<Rightarrow>
               (let t = temp_path directory n
                in (Inr t, emit (MkTemp directory t)
                             (w1\<lparr>files := (files w1)(t \<mapsto> []), temp_names := ns\<rparr>)))))"

text \<open>One operation on the open temporary file \<open>t\<close>: it raises, or it has its effect.\<close>

definition file_op :: "event \<Rightarrow> (world \<Rightarrow> world) \<Rightarrow> world \<Rightarrow> (exn + unit) \<times> world" where
  "file_op ev eff w =
     (case next_fault w of
        (Some e, w1) \<Rightarrow> (Inl e, w1)
      | (None, w1) \<Rightarrow> (Inr (), emit ev (eff w1)))"

definition write_file :: "string \<Rightarrow> string \<Rightarrow> world \<Rightarrow> (exn + unit) \<times> world" where
  "write_file t text w = file_op (WriteFile t text) (\<lambda>w. w\<lparr>files := (files w)(t \<mapsto> text)\<rparr>) w"

definition flush :: "string \<Rightarrow> world \<Rightarrow> (exn + unit) \<times> world" where
  "flush t w = file_op (Flush t) (\<lambda>w. w) w"

definition fsync :: "string \<Rightarrow> world \<Rightarrow> (exn + unit) \<times> world" where
  "fsync t w = file_op (Fsync t) (\<lambda>w. w) w"

definition close_file :: "string \<Rightarrow> world \<Rightarrow> (exn + unit) \<times> world" where
  "close_file t w = file_op (CloseFile t) (\<lambda>w. w) w"

text \<open>\<open>os.replace(src, dst)\<close>: \<open>dst\<close> takes the content of \<open>src\<close>, and \<open>src\<close> is gone.\<close>

definition os_replace :: "string \<Rightarrow> string \<Rightarrow> world \<Rightarrow> (exn + unit) \<times> world" where
  "os_replace src dst w =
     (case next_fault w of
        (Some e, w1) \<Rightarrow> (Inl e, w1)
      | (None, w1) \<Rightarrow>
          (case files w1 src of
             None \<Rightarrow> (Inl OSError, w1)
           | Some c \<Rightarrow>
               (Inr (), emit (Replace src dst)
                          (w1\<lparr>files := ((files w1)(src := None))(dst \<mapsto> c)\<rparr>))))"

section \<open>The State Store's write\<close>

text \<open>
  The body of the \<open>with\<close> block of \<open>_atomic_write_json\<close>: dump, flush, fsync. When a
  step raises, the later ones are not reached.
\<close>

definition dump_and_sync :: "string \<Rightarrow> json \<Rightarrow> world \<Rightarrow> (exn + unit) \<times> world" where
  "dump_and_sync t obj w =
     (case write_file t (dumps obj) w of
        (Inl e, w1) \<Rightarrow> (Inl e, w1)
      | (Inr _, w1) \<Rightarrow>
          (case flush t w1 of
             (Inl e, w2) \<Rightarrow> (Inl e, w2)
           | (Inr _, w2) \<Rightarrow> fsync t w2))"

text \<open>
  The \<open>with\<close> statement: the temporary file is created, the body runs, and the file
  is closed on the way out, also when the body raised (the file stays: \<open>delete=False\<close>).
  The result is \<open>temp_name\<close>.
\<close>

definition write_temp :: "string \<Rightarrow> json \<Rightarrow> world \<Rightarrow> (exn + string) \<times> world" where
  "write_temp directory obj w =
     (case named_temporary_file directory w of
        (Inl e, w1) \<Rightarrow> (Inl e, w1)
      | (Inr t, w1) \<Rightarrow>
          (case dump_and_sync t obj w1 of
             (Inl e, w2) \<Rightarrow> (Inl e, emit (CloseFile t) w2)
           | (Inr _, w2) \<Rightarrow>
               (case close_file t w2 of
                  (Inl e, w3) \<Rightarrow> (Inl e, w3)
                | (Inr _, w3) \<Rightarrow> (Inr t, w3))))"

definition target_directory :: "string \<Rightarrow> string" where
  "target_directory path = (if dirname path = [] then ''.'' else dirname path)"

text \<open>\<open>_atomic_write_json\<close> of the Scan Driver (\<open>PSM_annotated.py\<close>).\<close>

definition atomic_write_json :: "string \<Rightarrow> json \<Rightarrow> world \<Rightarrow> (exn + unit) \<times> world" where
  "atomic_write_json path obj w =
     (case write_temp (target_directory path) obj w of
        (Inl e, w1) \<Rightarrow> (Inl e, w1)
      | (Inr temp_name, w1) \<Rightarrow> os_replace temp_name path w1)"

text \<open>\<open>atomically_write_json\<close> of the Inbound Adapter: the same statements.\<close>

definition atomically_write_json :: "string \<Rightarrow> json \<Rightarrow> world \<Rightarrow> (exn + unit) \<times> world" where
  "atomically_write_json path obj w =
     (case write_temp (target_directory path) obj w of
        (Inl e, w1) \<Rightarrow> (Inl e, w1)
      | (Inr temp_name, w1) \<Rightarrow> os_replace temp_name path w1)"

section \<open>The Scan Driver (\<open>PSM_annotated.py\<close>)\<close>

definition INPUT_PATH :: string where
  "INPUT_PATH = ''/tmp/input.json''"

definition OUTPUT_PATH :: string where
  "OUTPUT_PATH = ''/tmp/output.json''"

definition OUTPUT_VARS :: "string list" where
  "OUTPUT_VARS = [''QX0.0'']"

text \<open>
  The module \<open>psm\<close> belongs to the controller runtime, not to this repository: it is
  a parameter, a controller state \<open>'p\<close> with the five operations the driver calls.
  A call can raise.
\<close>

record 'p psm =
  psm_start :: "'p \<Rightarrow> exn + 'p"
  psm_stop :: "'p \<Rightarrow> 'p"
  psm_should_quit :: "'p \<Rightarrow> bool \<times> 'p"
  psm_set_var :: "string \<Rightarrow> json \<Rightarrow> 'p \<Rightarrow> exn + 'p"
  psm_get_var :: "string \<Rightarrow> 'p \<Rightarrow> exn + json"

definition startswith :: "string \<Rightarrow> string \<Rightarrow> bool" where
  "startswith s pre = (take (length pre) s = pre)"


text \<open>
  The \<open>for\<close> loop of \<open>update_inputs\<close> over \<open>data.items()\<close>. A key of a decoded
  object is always a \<open>str\<close>, so the test is \<open>key.startswith("%")\<close>, and
  \<open>key[1:]\<close> is the tail.
\<close>

fun apply_items ::
  "'p psm \<Rightarrow> (string \<times> json) list \<Rightarrow> 'p \<Rightarrow> world \<Rightarrow> (exn + unit) \<times> 'p \<times> world" where
  "apply_items api [] p w = (Inr (), p, w)"
| "apply_items api ((key, val) # rest) p w =
     (if \<not> startswith key ''%'' then apply_items api rest p w
      else
        (case psm_set_var api (drop 1 key) val p of
           Inl e \<Rightarrow> (Inl e, p, emit (SetVar (drop 1 key) val) w)
         | Inr p1 \<Rightarrow> apply_items api rest p1 (emit (SetVar (drop 1 key) val) w)))"

text \<open>The statements inside the \<open>try\<close> of \<open>update_inputs\<close>.\<close>

definition update_inputs_body :: "'p psm \<Rightarrow> 'p \<Rightarrow> world \<Rightarrow> (exn + unit) \<times> 'p \<times> world" where
  "update_inputs_body api p w =
     (if \<not> path_exists INPUT_PATH w then (Inr (), p, w)
      else
        (case read_text INPUT_PATH w of
           (Inl e, w1) \<Rightarrow> (Inl e, p, w1)
         | (Inr text, w1) \<Rightarrow>
             (case json_loads text of
                None \<Rightarrow> (Inl JSONDecodeError, p, w1)
              | Some (JObj items) \<Rightarrow> apply_items api items p w1
              | Some _ \<Rightarrow> (Inr (), p, emit (Print PsmNonObject) w1))))"

definition update_inputs :: "'p psm \<Rightarrow> 'p \<Rightarrow> world \<Rightarrow> (exn + unit) \<times> 'p \<times> world" where
  "update_inputs api p w =
     (case update_inputs_body api p w of
        (Inr _, p1, w1) \<Rightarrow> (Inr (), p1, w1)
      | (Inl e, p1, w1) \<Rightarrow>
          if is_Exception e then (Inr (), p1, emit (Print (PsmInputsError e)) w1)
          else (Inl e, p1, w1))"

text \<open>The \<open>for\<close> loop of \<open>update_outputs\<close>, from the empty dictionary \<open>output\<close>.\<close>

fun collect_outputs ::
  "'p psm \<Rightarrow> string list \<Rightarrow> (string \<times> json) list \<Rightarrow> 'p \<Rightarrow> world
     \<Rightarrow> (exn + (string \<times> json) list) \<times> world" where
  "collect_outputs api [] output p w = (Inr output, w)"
| "collect_outputs api (addr # rest) output p w =
     (case psm_get_var api addr p of
        Inl e \<Rightarrow> (Inl e, emit (GetVar addr) w)
      | Inr val \<Rightarrow>
          collect_outputs api rest (dict_set (''%'' @ addr) val output) p (emit (GetVar addr) w))"

definition update_outputs_body :: "'p psm \<Rightarrow> 'p \<Rightarrow> world \<Rightarrow> (exn + unit) \<times> world" where
  "update_outputs_body api p w =
     (case collect_outputs api OUTPUT_VARS [] p w of
        (Inl e, w1) \<Rightarrow> (Inl e, w1)
      | (Inr output, w1) \<Rightarrow> atomic_write_json OUTPUT_PATH (JObj output) w1)"

definition update_outputs :: "'p psm \<Rightarrow> 'p \<Rightarrow> world \<Rightarrow> (exn + unit) \<times> world" where
  "update_outputs api p w =
     (case update_outputs_body api p w of
        (Inr _, w1) \<Rightarrow> (Inr (), w1)
      | (Inl e, w1) \<Rightarrow>
          if is_Exception e then (Inr (), emit (Print (PsmOutputsError e)) w1)
          else (Inl e, w1))"

text \<open>One turn of the \<open>while\<close> loop, after \<open>psm.should_quit()\<close> has answered no.\<close>

definition scan_period :: "'p psm \<Rightarrow> 'p \<Rightarrow> world \<Rightarrow> (exn + unit) \<times> 'p \<times> world" where
  "scan_period api p w =
     (case update_inputs api p w of
        (Inl e, p1, w1) \<Rightarrow> (Inl e, p1, w1)
      | (Inr _, p1, w1) \<Rightarrow>
          (case update_outputs api p1 w1 of
             (Inl e, w2) \<Rightarrow> (Inl e, p1, w2)
           | (Inr _, w2) \<Rightarrow> (Inr (), p1, w2)))"

text \<open>
  The \<open>while not psm.should_quit()\<close> loop and the \<open>psm.stop()\<close> after it. The loop
  need not end, so the result is an option.
\<close>

partial_function (option) scan_loop ::
  "'p psm \<Rightarrow> 'p \<Rightarrow> world \<Rightarrow> ((exn + unit) \<times> 'p \<times> world) option" where
  "scan_loop api p w =
     (case psm_should_quit api p of
        (quit, p1) \<Rightarrow>
          if quit then Some (Inr (), psm_stop api p1, emit PsmStop w)
          else
            (case scan_period api p1 w of
               (res, p2, w2) \<Rightarrow> if isl res then Some (res, p2, w2) else scan_loop api p2 w2))"

section \<open>The Inbound Adapter (\<open>mqtt_input_bridge_annotated.py\<close>)\<close>

text \<open>
  \<open>msg.payload.decode("utf-8", errors="strict")\<close> on the bytes of a message. The
  one- and two-byte sequences of code points below 256 are decoded; every other
  byte sequence is refused (it is ill-formed, or its text is outside the strings of
  this development). \<open>None\<close> stands for \<open>UnicodeDecodeError\<close>.
\<close>

fun utf8_decode :: "string \<Rightarrow> string option" where
  "utf8_decode [] = Some []"
| "utf8_decode [c] = (if (of_char c :: nat) < 128 then Some [c] else None)"
| "utf8_decode (c # d # r) =
     (if (of_char c :: nat) < 128 then map_option ((#) c) (utf8_decode (d # r))
      else if (c = CHR 0xC2 \<or> c = CHR 0xC3) \<and> 128 \<le> (of_char d :: nat) \<and> (of_char d :: nat) < 192
      then map_option ((#) (char_of (((of_char c :: nat) - 192) * 64 + ((of_char d :: nat) - 128))))
             (utf8_decode r)
      else None)"

definition is_bad_key :: "string \<Rightarrow> bool" where
  "is_bad_key k = (\<not> startswith k ''%'')"

text \<open>The statements inside the \<open>try\<close> of \<open>on_message\<close>.\<close>

definition on_message_body :: "string \<Rightarrow> world \<Rightarrow> (exn + unit) \<times> world" where
  "on_message_body payload w =
     (case utf8_decode payload of
        None \<Rightarrow> (Inl UnicodeDecodeError, w)
      | Some text \<Rightarrow>
          (case json_loads text of
             None \<Rightarrow> (Inl JSONDecodeError, w)
           | Some (JObj items) \<Rightarrow>
               (let bad_keys = filter is_bad_key (map fst items);
                    w1 = (if bad_keys \<noteq> [] then emit (Print (InBadKeys bad_keys)) w else w)
                in case atomically_write_json INPUT_PATH (JObj items) w1 of
                     (Inl e, w2) \<Rightarrow> (Inl e, w2)
                   | (Inr _, w2) \<Rightarrow> (Inr (), emit (Print (InWrote (JObj items))) w2))
           | Some _ \<Rightarrow> (Inr (), emit (Print InIgnoredPayload) w)))"

definition on_message :: "string \<Rightarrow> world \<Rightarrow> (exn + unit) \<times> world" where
  "on_message payload w =
     (case on_message_body payload w of
        (Inr _, w1) \<Rightarrow> (Inr (), w1)
      | (Inl e, w1) \<Rightarrow>
          if e = JSONDecodeError then (Inr (), emit (Print InNotJSON) w1)
          else if is_Exception e then (Inr (), emit (Print (InError e)) w1)
          else (Inl e, w1))"

section \<open>The Outbound Adapter (\<open>mqtt_output_bridge_annotated.py\<close>)\<close>







section \<open>Notions the properties are stated with\<close>

definition is_Replace :: "event \<Rightarrow> bool" where
  "is_Replace ev = (case ev of Replace _ _ \<Rightarrow> True | _ \<Rightarrow> False)"

text \<open>
  \<open>frame t w w'\<close>: from \<open>w\<close> to \<open>w'\<close> no file but \<open>t\<close> has changed and nothing was
  renamed. \<open>keeps w w'\<close>: every file of \<open>w\<close> still has its content in \<open>w'\<close>, and
  nothing was renamed.
\<close>

definition frame :: "string \<Rightarrow> world \<Rightarrow> world \<Rightarrow> bool" where
  "frame t w w' =
     ((\<forall>p. p \<noteq> t \<longrightarrow> files w' p = files w p) \<and>
      (\<exists>evs. trace w' = trace w @ evs \<and> list_all (\<lambda>ev. \<not> is_Replace ev) evs))"

definition keeps :: "world \<Rightarrow> world \<Rightarrow> bool" where
  "keeps w w' =
     ((\<forall>p. files w p \<noteq> None \<longrightarrow> files w' p = files w p) \<and>
      (\<exists>evs. trace w' = trace w @ evs \<and> list_all (\<lambda>ev. \<not> is_Replace ev) evs))"

text \<open>
  A world to run the programs in: the outbound slot holds an earlier snapshot, the
  name generator has two names left, and the file operations fail as \<open>fs\<close> says.
\<close>

definition demo_world :: "exn option list \<Rightarrow> world" where
  "demo_world fs =
     \<lparr>files = [''/tmp/output.json'' \<mapsto> ''{\"%QX0.0\":false}''],
      faults = fs, temp_names = [''k3x9_a0b'', ''q_7tt2mz''], trace = []\<rparr>"


text \<open>
  What the entries of a snapshot ask for: for each key with the sentinel, in the
  snapshot's order, the key without its first character and the value.
\<close>

definition wanted :: "(string \<times> json) list \<Rightarrow> (string \<times> json) list" where
  "wanted items = map (\<lambda>(k, v). (drop 1 k, v)) (filter (\<lambda>(k, v). startswith k ''%'') items)"

text \<open>The calls that are reached: all of them, up to and including the first that raises.\<close>

fun attempted :: "'p psm \<Rightarrow> 'p \<Rightarrow> (string \<times> json) list \<Rightarrow> (string \<times> json) list" where
  "attempted api p [] = []"
| "attempted api p ((n, v) # cs) =
     (n, v) # (case psm_set_var api n v p of Inl _ \<Rightarrow> [] | Inr p1 \<Rightarrow> attempted api p1 cs)"

definition never_raises :: "'p psm \<Rightarrow> (string \<times> json) list \<Rightarrow> bool" where
  "never_raises api cs = (\<forall>(n, v) \<in> set cs. \<forall>q. \<not> isl (psm_set_var api n v q))"

text \<open>The next \<open>n\<close> file operations that can raise will not.\<close>

definition no_fault :: "nat \<Rightarrow> world \<Rightarrow> bool" where
  "no_fault n w = list_all (\<lambda>f. f = None) (take n (faults w))"

text \<open>
  A controller to run the driver with: its state is the number of scans left before
  it asks to stop, and its variables. Setting the variable \<open>LOCKED\<close> raises, and so
  does reading a variable that was never set.
\<close>

definition demo_psm :: "(nat \<times> (string \<times> json) list) psm" where
  "demo_psm =
     \<lparr>psm_start = (\<lambda>p. Inr p),
      psm_stop = (\<lambda>p. p),
      psm_should_quit = (\<lambda>(n, vars). (n = 0, (n - 1, vars))),
      psm_set_var = (\<lambda>name val (n, vars).
         if name = ''LOCKED'' then Inl RuntimeError else Inr (n, dict_set name val vars)),
      psm_get_var = (\<lambda>name (n, vars).
         case map_of vars name of None \<Rightarrow> Inl RuntimeError | Some v \<Rightarrow> Inr v)\<rparr>"

definition input_world :: "string \<Rightarrow> world" where
  "input_world text =
     \<lparr>files = [''/tmp/input.json'' \<mapsto> text],
      faults = [], temp_names = [''k3x9_a0b'', ''q_7tt2mz''], trace = []\<rparr>"



definition is_object :: "json \<Rightarrow> bool" where
  "is_object v = (case v of JObj _ \<Rightarrow> True | _ \<Rightarrow> False)"

text \<open>Some name of the generator is free in the directory \<open>d\<close>.\<close>

definition name_left :: "string \<Rightarrow> world \<Rightarrow> bool" where
  "name_left d w = list_ex (\<lambda>n. files w (temp_path d n) = None) (temp_names w)"


text \<open>
  The environment raises errors only: every exception of the controller's
  \<open>set_var\<close> and \<open>get_var\<close>, and every one the file operations will raise, is of
  class \<open>Exception\<close>.
\<close>

definition safe_psm :: "'p psm \<Rightarrow> bool" where
  "safe_psm api =
     ((\<forall>n v q e. psm_set_var api n v q = Inl e \<longrightarrow> is_Exception e) \<and>
      (\<forall>n q e. psm_get_var api n q = Inl e \<longrightarrow> is_Exception e))"

definition safe_faults :: "world \<Rightarrow> bool" where
  "safe_faults w = list_all (\<lambda>f. case f of None \<Rightarrow> True | Some e \<Rightarrow> is_Exception e) (faults w)"

text \<open>An exception that comes from the operating system: from the faults, or an \<open>OSError\<close>.\<close>

definition from_os :: "world \<Rightarrow> exn \<Rightarrow> bool" where
  "from_os w e = (e = OSError \<or> Some e \<in> set (faults w))"

text \<open>
  The scan loop with a bound on the number of times it asks \<open>psm.should_quit()\<close>:
  \<open>None\<close> when the bound is reached.
\<close>

fun scan_for ::
  "'p psm \<Rightarrow> nat \<Rightarrow> 'p \<Rightarrow> world \<Rightarrow> ((exn + unit) \<times> 'p \<times> world) option" where
  "scan_for api 0 p w = None"
| "scan_for api (Suc n) p w =
     (case psm_should_quit api p of
        (quit, p1) \<Rightarrow>
          if quit then Some (Inr (), psm_stop api p1, emit PsmStop w)
          else
            (case scan_period api p1 w of
               (res, p2, w2) \<Rightarrow> if isl res then Some (res, p2, w2) else scan_for api n p2 w2))"

text \<open>The controller asks to stop at one of the first \<open>n\<close> checks of the run.\<close>

fun stop_asked :: "'p psm \<Rightarrow> nat \<Rightarrow> 'p \<Rightarrow> world \<Rightarrow> bool" where
  "stop_asked api 0 p w = False"
| "stop_asked api (Suc n) p w =
     (case psm_should_quit api p of
        (quit, p1) \<Rightarrow>
          quit \<or> (case scan_period api p1 w of (res, p2, w2) \<Rightarrow> stop_asked api n p2 w2))"

text \<open>
  A step from \<open>w\<close> to \<open>w'\<close> with result \<open>r\<close> that raises only what the operating
  system gave it, and leaves of the faults only later ones.
\<close>

definition os_step :: "world \<Rightarrow> exn + 'a \<Rightarrow> world \<Rightarrow> bool" where
  "os_step w r w' =
     (set (faults w') \<subseteq> set (faults w) \<and> (\<forall>e. r = Inl e \<longrightarrow> from_os w e))"

text \<open>A world whose inbound slot holds a given text, with faults to come.\<close>

definition faulty_world :: "string \<Rightarrow> exn option list \<Rightarrow> world" where
  "faulty_world c fs =
     \<lparr>files = [''/tmp/input.json'' \<mapsto> c],
      faults = fs, temp_names = [''k3x9_a0b'', ''q_7tt2mz''], trace = []\<rparr>"

text \<open>
  A Python object that came from JSON: the keys of every dictionary in it are
  distinct.
\<close>

fun wf_json :: "json \<Rightarrow> bool" where
  "wf_json (JArr xs) = list_all wf_json xs"
| "wf_json (JObj kvs) = (distinct (map fst kvs) \<and> list_all (\<lambda>(k, v). wf_json v) kvs)"
| "wf_json v = True"

text \<open>The same object with the entries of every dictionary in the order of their keys.\<close>

fun sort_keys :: "json \<Rightarrow> json" where
  "sort_keys (JArr xs) = JArr (map sort_keys xs)"
| "sort_keys (JObj kvs) = JObj (map (\<lambda>(k, v). (k, sort_keys v)) (sort_key fst kvs))"
| "sort_keys v = v"

text \<open>
  Deep equality: two lists are equal when their elements are, in order; two
  dictionaries when they have as many entries and every key of the first has a
  deep-equal value in the second, whatever the order of insertion.
\<close>

fun deep_eq :: "json \<Rightarrow> json \<Rightarrow> bool" where
  "deep_eq (JArr xs) (JArr ys) = list_all2 deep_eq xs ys"
| "deep_eq (JObj a) (JObj b) =
     (length a = length b \<and>
      list_all (\<lambda>(k, v). case map_of b k of None \<Rightarrow> False | Some v' \<Rightarrow> deep_eq v v') a)"
| "deep_eq x y = (x = y)"

text \<open>What may follow a value in a JSON text: nothing, a comma, or a closing bracket.\<close>

definition after_value :: "string \<Rightarrow> bool" where
  "after_value r = (case r of [] \<Rightarrow> True | c # _ \<Rightarrow> c = CHR '','' \<or> c = CHR '']'' \<or> c = CHR ''}'')"

text \<open>Auxiliary notions of the round trip: what the text after a number, the first
  character of a value, and the text of an object's member look like.\<close>

definition no_digit_next :: "string \<Rightarrow> bool" where
  "no_digit_next r = (case r of [] \<Rightarrow> True | c # _ \<Rightarrow> \<not> is_digit c)"

definition value_first :: "char \<Rightarrow> bool" where
  "value_first c = (\<not> is_ws c \<and> c \<noteq> CHR '']'' \<and> c \<noteq> CHR ''}'')"

definition member_text :: "string \<times> json \<Rightarrow> string" where
  "member_text kv = encode_str (fst kv) @ '':'' @ dumps (snd kv)"

section \<open>Properties of the State Store's write\<close>

lemma frame_refl: "frame t w w"
  by (simp add: frame_def)

lemma frame_trans: "frame t w w1 \<Longrightarrow> frame t w1 w2 \<Longrightarrow> frame t w w2"
  unfolding frame_def
  apply (elim conjE exE)
  apply (rule conjI)
   apply simp
  subgoal for evs evsa
    by (rule exI[of _ "evs @ evsa"]) simp
  done

lemma next_fault_fields:
  "next_fault w = (f, w1) \<Longrightarrow>
     files w1 = files w \<and> trace w1 = trace w \<and> temp_names w1 = temp_names w"
  by (auto simp: next_fault_def split: list.splits)

lemma frame_next_fault: "next_fault w = (f, w1) \<Longrightarrow> frame t w w1"
  by (drule next_fault_fields) (simp add: frame_def)

lemma frame_emit: "\<not> is_Replace ev \<Longrightarrow> frame t w (emit ev w)"
  by (simp add: frame_def emit_def)

lemma frame_file_op:
  assumes "file_op ev eff w = (r, w')" and "\<And>x. frame t x (eff x)" and "\<not> is_Replace ev"
  shows "frame t w w'"
proof (cases "next_fault w")
  case (Pair f w1)
  note f1 = frame_next_fault[OF Pair, of t]
  show ?thesis
  proof (cases f)
    case None
    with assms(1) Pair have "w' = emit ev (eff w1)" by (simp add: file_op_def)
    with f1 assms(2,3) show ?thesis
      by (metis frame_emit frame_trans)
  next
    case (Some e)
    with assms(1) Pair have "w' = w1" by (simp add: file_op_def)
    with f1 show ?thesis by simp
  qed
qed

lemma frame_write_eff: "frame t x (x\<lparr>files := (files x)(t \<mapsto> c)\<rparr>)"
  by (simp add: frame_def)

lemma frame_write_file: "write_file t c w = (r, w') \<Longrightarrow> frame t w w'"
  unfolding write_file_def
  by (erule frame_file_op) (simp_all add: frame_write_eff is_Replace_def)

lemma frame_flush: "flush t w = (r, w') \<Longrightarrow> frame t w w'"
  unfolding flush_def
  by (erule frame_file_op) (simp_all add: frame_refl is_Replace_def)

lemma frame_fsync: "fsync t w = (r, w') \<Longrightarrow> frame t w w'"
  unfolding fsync_def
  by (erule frame_file_op) (simp_all add: frame_refl is_Replace_def)

lemma frame_close_file: "close_file t w = (r, w') \<Longrightarrow> frame t w w'"
  unfolding close_file_def
  by (erule frame_file_op) (simp_all add: frame_refl is_Replace_def)

lemma frame_dump_and_sync:
  assumes "dump_and_sync t obj w = (r, w')"
  shows "frame t w w'"
proof -
  obtain r1 w1 where s1: "write_file t (dumps obj) w = (r1, w1)"
    by (cases "write_file t (dumps obj) w")
  obtain r2 w2 where s2: "flush t w1 = (r2, w2)" by (cases "flush t w1")
  obtain r3 w3 where s3: "fsync t w2 = (r3, w3)" by (cases "fsync t w2")
  note f1 = frame_write_file[OF s1] and f2 = frame_flush[OF s2] and f3 = frame_fsync[OF s3]
  have "w' = w1 \<or> w' = w2 \<or> w' = w3"
    using assms s1 s2 s3 by (simp add: dump_and_sync_def split: sum.splits)
  then show ?thesis
    using f1 f2 f3 by (metis frame_trans)
qed

lemma named_temporary_file_Inl:
  assumes "named_temporary_file d w = (Inl e, w')"
  shows "files w' = files w \<and> trace w' = trace w"
proof (cases "next_fault w")
  case (Pair f w1)
  note fr = next_fault_fields[OF Pair]
  show ?thesis
  proof (cases f)
    case (Some e')
    have "named_temporary_file d w = (Inl e', w1)"
      unfolding named_temporary_file_def Pair Some prod.case option.case ..
    with assms fr show ?thesis by simp
  next
    case None
    show ?thesis
    proof (cases "dropWhile (\<lambda>n. files w1 (temp_path d n) \<noteq> None) (temp_names w1)")
      case Nil
      have "named_temporary_file d w = (Inl OSError, w1\<lparr>temp_names := []\<rparr>)"
        unfolding named_temporary_file_def Pair None prod.case option.case Nil list.case ..
      with assms fr show ?thesis by auto
    next
      case (Cons n ns)
      have "named_temporary_file d w =
              (Inr (temp_path d n), emit (MkTemp d (temp_path d n))
                 (w1\<lparr>files := (files w1)(temp_path d n \<mapsto> []), temp_names := ns\<rparr>))"
        unfolding named_temporary_file_def Pair None prod.case option.case Cons list.case Let_def ..
      with assms show ?thesis by simp
    qed
  qed
qed

lemma named_temporary_file_Inr:
  assumes "named_temporary_file d w = (Inr t, w')"
  shows "files w t = None \<and> t \<in> temp_path d ` set (temp_names w)
         \<and> files w' = (files w)(t \<mapsto> []) \<and> trace w' = trace w @ [MkTemp d t]"
proof (cases "next_fault w")
  case (Pair f w1)
  note fr = next_fault_fields[OF Pair]
  show ?thesis
  proof (cases f)
    case (Some e')
    have "named_temporary_file d w = (Inl e', w1)"
      unfolding named_temporary_file_def Pair Some prod.case option.case ..
    with assms show ?thesis by simp
  next
    case None
    show ?thesis
    proof (cases "dropWhile (\<lambda>n. files w1 (temp_path d n) \<noteq> None) (temp_names w1)")
      case Nil
      have "named_temporary_file d w = (Inl OSError, w1\<lparr>temp_names := []\<rparr>)"
        unfolding named_temporary_file_def Pair None prod.case option.case Nil list.case ..
      with assms show ?thesis by simp
    next
      case (Cons n ns)
      have "n \<in> set (dropWhile (\<lambda>n. files w1 (temp_path d n) \<noteq> None) (temp_names w1))"
        unfolding Cons by simp
      then have mem: "n \<in> set (temp_names w1)"
        by (rule set_dropWhileD)
      have "\<not> (\<lambda>n. files w1 (temp_path d n) \<noteq> None)
                (hd (dropWhile (\<lambda>n. files w1 (temp_path d n) \<noteq> None) (temp_names w1)))"
        by (rule hd_dropWhile) (simp only: Cons list.distinct not_False_eq_True)
      then have fresh: "files w1 (temp_path d n) = None"
        unfolding Cons by simp
      have "named_temporary_file d w =
              (Inr (temp_path d n), emit (MkTemp d (temp_path d n))
                 (w1\<lparr>files := (files w1)(temp_path d n \<mapsto> []), temp_names := ns\<rparr>))"
        unfolding named_temporary_file_def Pair None prod.case option.case Cons list.case Let_def ..
      with assms have t: "t = temp_path d n"
        and w': "w' = emit (MkTemp d t) (w1\<lparr>files := (files w1)(t \<mapsto> []), temp_names := ns\<rparr>)"
        by auto
      show ?thesis
        using fr mem fresh by (simp add: t w' emit_def)
    qed
  qed
qed

lemma file_op_Inr:
  assumes "file_op ev eff w = (Inr u, w')"
  shows "\<exists>w1. files w1 = files w \<and> trace w1 = trace w \<and> w' = emit ev (eff w1)"
proof (cases "next_fault w")
  case (Pair f w1)
  note fr = next_fault_fields[OF Pair]
  from assms Pair have "f = None" and "w' = emit ev (eff w1)"
    by (auto simp: file_op_def split: option.splits)
  with fr show ?thesis by blast
qed

lemma write_file_Inr:
  "write_file t c w = (Inr u, w') \<Longrightarrow>
     files w' = (files w)(t \<mapsto> c) \<and> trace w' = trace w @ [WriteFile t c]"
  unfolding write_file_def by (drule file_op_Inr) (auto simp: emit_def)

lemma flush_Inr:
  "flush t w = (Inr u, w') \<Longrightarrow> files w' = files w \<and> trace w' = trace w @ [Flush t]"
  unfolding flush_def by (drule file_op_Inr) (auto simp: emit_def)

lemma fsync_Inr:
  "fsync t w = (Inr u, w') \<Longrightarrow> files w' = files w \<and> trace w' = trace w @ [Fsync t]"
  unfolding fsync_def by (drule file_op_Inr) (auto simp: emit_def)

lemma close_file_Inr:
  "close_file t w = (Inr u, w') \<Longrightarrow> files w' = files w \<and> trace w' = trace w @ [CloseFile t]"
  unfolding close_file_def by (drule file_op_Inr) (auto simp: emit_def)

lemma dump_and_sync_Inr:
  assumes "dump_and_sync t obj w = (Inr u, w')"
  shows "files w' = (files w)(t \<mapsto> dumps obj)
         \<and> trace w' = trace w @ [WriteFile t (dumps obj), Flush t, Fsync t]"
proof -
  obtain r1 w1 where s1: "write_file t (dumps obj) w = (r1, w1)"
    by (cases "write_file t (dumps obj) w")
  obtain r2 w2 where s2: "flush t w1 = (r2, w2)" by (cases "flush t w1")
  from assms s1 s2 have r1: "r1 = Inr ()" and r2: "r2 = Inr ()" and s3: "fsync t w2 = (Inr u, w')"
    by (auto simp: dump_and_sync_def split: sum.splits)
  from write_file_Inr[OF s1[unfolded r1]] flush_Inr[OF s2[unfolded r2]] fsync_Inr[OF s3]
  show ?thesis by simp
qed

lemma write_temp_Inr:
  assumes "write_temp d obj w = (Inr t, w')"
  shows "files w t = None \<and> t \<in> temp_path d ` set (temp_names w)
         \<and> files w' = (files w)(t \<mapsto> dumps obj)
         \<and> trace w' = trace w @ [MkTemp d t, WriteFile t (dumps obj), Flush t, Fsync t, CloseFile t]"
proof -
  obtain r1 w1 where s1: "named_temporary_file d w = (r1, w1)"
    by (cases "named_temporary_file d w")
  from assms s1 obtain t1 where r1: "r1 = Inr t1"
    by (cases r1) (auto simp: write_temp_def)
  obtain r2 w2 where s2: "dump_and_sync t1 obj w1 = (r2, w2)"
    by (cases "dump_and_sync t1 obj w1")
  from assms s1 r1 s2 have r2: "r2 = Inr ()"
    by (cases r2) (auto simp: write_temp_def)
  obtain r3 w3 where s3: "close_file t1 w2 = (r3, w3)" by (cases "close_file t1 w2")
  from assms s1 r1 s2 r2 s3 have r3: "r3 = Inr ()" and t1: "t1 = t" and w3: "w3 = w'"
    by (cases r3; simp add: write_temp_def)+
  from named_temporary_file_Inr[OF s1[unfolded r1]] dump_and_sync_Inr[OF s2[unfolded r2]]
       close_file_Inr[OF s3[unfolded r3]]
  show ?thesis unfolding t1 w3 by simp
qed

lemma frame_keeps: "frame t w w' \<Longrightarrow> files w t = None \<Longrightarrow> keeps w w'"
  unfolding frame_def keeps_def by metis

lemma keeps_same: "files w' = files w \<Longrightarrow> trace w' = trace w \<Longrightarrow> keeps w w'"
  by (simp add: keeps_def)

lemma keeps_then_same:
  "keeps w w1 \<Longrightarrow> files w2 = files w1 \<Longrightarrow> trace w2 = trace w1 \<Longrightarrow> keeps w w2"
  by (simp add: keeps_def)

lemma frame_named_temporary_file:
  "named_temporary_file d w = (Inr t, w') \<Longrightarrow> frame t w w'"
  by (drule named_temporary_file_Inr) (simp add: frame_def is_Replace_def)

lemma write_temp_keeps:
  assumes "write_temp d obj w = (r, w')"
  shows "keeps w w'"
proof -
  obtain r1 w1 where s1: "named_temporary_file d w = (r1, w1)"
    by (cases "named_temporary_file d w")
  show ?thesis
  proof (cases r1)
    case (Inl e)
    with assms s1 have "w' = w1" by (simp add: write_temp_def)
    with named_temporary_file_Inl[OF s1[unfolded Inl]] show ?thesis
      by (simp add: keeps_same)
  next
    case (Inr t)
    note n = named_temporary_file_Inr[OF s1[unfolded Inr]]
    note f1 = frame_named_temporary_file[OF s1[unfolded Inr]]
    obtain r2 w2 where s2: "dump_and_sync t obj w1 = (r2, w2)"
      by (cases "dump_and_sync t obj w1")
    note f2 = frame_trans[OF f1 frame_dump_and_sync[OF s2]]
    obtain r3 w3 where s3: "close_file t w2 = (r3, w3)" by (cases "close_file t w2")
    note f3 = frame_trans[OF f2 frame_close_file[OF s3]]
    have f2': "frame t w (emit (CloseFile t) w2)"
      by (rule frame_trans[OF f2 frame_emit]) (simp add: is_Replace_def)
    have "w' = emit (CloseFile t) w2 \<or> w' = w3"
      using assms s1 Inr s2 s3 by (auto simp: write_temp_def split: sum.splits)
    with f2' f3 have "frame t w w'" by auto
    with n show ?thesis by (simp add: frame_keeps)
  qed
qed

lemma os_replace_Inl:
  assumes "os_replace src dst w = (Inl e, w')"
  shows "files w' = files w \<and> trace w' = trace w"
proof (cases "next_fault w")
  case (Pair f w1)
  note fr = next_fault_fields[OF Pair]
  from assms Pair have "w' = w1"
    by (auto simp: os_replace_def split: option.splits)
  with fr show ?thesis by simp
qed

lemma os_replace_Inr:
  assumes "os_replace src dst w = (Inr u, w')"
  shows "\<exists>c. files w src = Some c \<and> files w' = ((files w)(src := None))(dst \<mapsto> c)
             \<and> trace w' = trace w @ [Replace src dst]"
proof (cases "next_fault w")
  case (Pair f w1)
  note fr = next_fault_fields[OF Pair]
  from assms Pair obtain c where "files w1 src = Some c"
    and "w' = emit (Replace src dst) (w1\<lparr>files := ((files w1)(src := None))(dst \<mapsto> c)\<rparr>)"
    by (auto simp: os_replace_def split: option.splits)
  with fr show ?thesis by (simp add: emit_def)
qed

lemma sort_key_fst_unique:
  assumes "distinct (map fst xs)" and "distinct (map fst ys)" and "set ys = set xs"
  shows "sort_key fst ys = sort_key fst xs"
proof (rule map_sorted_distinct_set_unique[where f = fst])
  from assms(1) have "inj_on fst (set xs)" by (simp add: distinct_map)
  with assms(3) show "inj_on fst (set (sort_key fst ys) \<union> set (sort_key fst xs))" by simp
  from assms(2) show "distinct (map fst (sort_key fst ys))" by (simp add: distinct_map)
  from assms(1) show "distinct (map fst (sort_key fst xs))" by (simp add: distinct_map)
  from assms(3) show "set (sort_key fst ys) = set (sort_key fst xs)" by simp
qed simp_all

lemma atomic_write_json_result:
  assumes "atomic_write_json path obj w = (r, w')"
  shows "(r = Inr () \<longrightarrow>
           (\<exists>t. files w t = None \<and> t \<in> temp_path (target_directory path) ` set (temp_names w)
              \<and> trace w' = trace w @ [MkTemp (target_directory path) t, WriteFile t (dumps obj),
                                       Flush t, Fsync t, CloseFile t, Replace t path]
              \<and> files w' = ((files w)(t := None))(path \<mapsto> dumps obj)))
       \<and> (r \<noteq> Inr () \<longrightarrow> keeps w w')"
proof -
  let ?d = "target_directory path"
  obtain r1 w1 where s1: "write_temp ?d obj w = (r1, w1)" by (cases "write_temp ?d obj w")
  note k1 = write_temp_keeps[OF s1]
  show ?thesis
  proof (cases r1)
    case (Inl e)
    with assms s1 have "r = Inl e" and "w' = w1" by (simp_all add: atomic_write_json_def)
    with k1 show ?thesis by simp
  next
    case (Inr t)
    note wt = write_temp_Inr[OF s1[unfolded Inr]]
    from assms s1 Inr have s2: "os_replace t path w1 = (r, w')"
      by (simp add: atomic_write_json_def)
    show ?thesis
    proof (cases r)
      case (Inl e)
      from os_replace_Inl[OF s2[unfolded Inl]] k1 have "keeps w w'"
        by (auto intro: keeps_then_same)
      with Inl show ?thesis by simp
    next
      case Inr2: (Inr u)
      from os_replace_Inr[OF s2[unfolded Inr2]] wt
      have "files w t = None \<and> t \<in> temp_path ?d ` set (temp_names w)
              \<and> trace w' = trace w @ [MkTemp ?d t, WriteFile t (dumps obj),
                                       Flush t, Fsync t, CloseFile t, Replace t path]
              \<and> files w' = ((files w)(t := None))(path \<mapsto> dumps obj)"
        by auto
      then have "\<exists>t. files w t = None \<and> t \<in> temp_path ?d ` set (temp_names w)
              \<and> trace w' = trace w @ [MkTemp ?d t, WriteFile t (dumps obj),
                                       Flush t, Fsync t, CloseFile t, Replace t path]
              \<and> files w' = ((files w)(t := None))(path \<mapsto> dumps obj)" ..
      with Inr2 show ?thesis by simp
    qed
  qed
qed

lemma atomically_write_json_eq: "atomically_write_json = atomic_write_json"
  by (intro ext) (simp add: atomically_write_json_def atomic_write_json_def)

text \<open>
  C1. Both copies of the write (\<open>_atomic_write_json\<close> and \<open>atomically_write_json\<close>)
  behave alike on every path, snapshot and world. When the write succeeds, what it
  did is exactly: create a temporary file \<open>t\<close>, which named no file before, with
  \<open>dir\<close> the directory of the target; write the serialization \<open>dumps obj\<close> to it;
  flush; fsync; close; rename \<open>t\<close> onto the target. Afterwards the target holds
  \<open>dumps obj\<close>. When the write raises, every file that existed still has its
  content and nothing was renamed. The serialization is canonical: two dictionaries
  with the same entries, inserted in whatever order, have the same one.
\<close>

theorem atomic_write_json_protocol:
  assumes "atomic_write_json path obj w = (r, w')"
  shows "(r = Inr () \<longrightarrow>
           (\<exists>t. files w t = None \<and> t \<in> temp_path (target_directory path) ` set (temp_names w)
              \<and> trace w' = trace w @ [MkTemp (target_directory path) t, WriteFile t (dumps obj),
                                       Flush t, Fsync t, CloseFile t, Replace t path]
              \<and> files w' = ((files w)(t := None))(path \<mapsto> dumps obj)))
       \<and> (r \<noteq> Inr () \<longrightarrow> keeps w w')
       \<and> atomically_write_json path obj w = (r, w')
       \<and> (\<forall>kvs kvs'. distinct (map fst kvs) \<and> distinct (map fst kvs') \<and> set kvs' = set kvs
              \<longrightarrow> dumps (JObj kvs') = dumps (JObj kvs))"
proof -
  have "dumps (JObj kvs') = dumps (JObj kvs)"
    if "distinct (map fst kvs) \<and> distinct (map fst kvs') \<and> set kvs' = set kvs" for kvs kvs'
    using that sort_key_fst_unique[of kvs kvs'] by simp
  with atomic_write_json_result[OF assms] assms show ?thesis
    by (simp add: atomically_write_json_eq)
qed

lemma target_directory_output: "target_directory ''/tmp/output.json'' = ''/tmp''"
  by (simp add: target_directory_def dirname_def rstrip_sep_def)

lemma demo_write_succeeds:
  "atomic_write_json OUTPUT_PATH (JObj [(''b'', JInt 1), (''a'', JBool True)]) (demo_world []) =
     (Inr (),
      \<lparr>files = [''/tmp/output.json'' \<mapsto> ''{\"a\":true,\"b\":1}''], faults = [],
       temp_names = [''q_7tt2mz''],
       trace = [MkTemp ''/tmp'' ''/tmp/tmpk3x9_a0b'',
                WriteFile ''/tmp/tmpk3x9_a0b'' ''{\"a\":true,\"b\":1}'',
                Flush ''/tmp/tmpk3x9_a0b'', Fsync ''/tmp/tmpk3x9_a0b'',
                CloseFile ''/tmp/tmpk3x9_a0b'',
                Replace ''/tmp/tmpk3x9_a0b'' ''/tmp/output.json'']\<rparr>)"
  by (simp add: atomic_write_json_def write_temp_def named_temporary_file_def demo_world_def
      next_fault_def target_directory_output temp_path_def path_join_def emit_def OUTPUT_PATH_def
      dump_and_sync_def write_file_def file_op_def flush_def fsync_def close_file_def
      os_replace_def fun_eq_iff Let_def encode_str_def escape_char_def encode_int_def
      digits.simps digit_char_def)

lemma demo_write_fails:
  "atomic_write_json OUTPUT_PATH (JObj [(''b'', JInt 1), (''a'', JBool True)])
       (demo_world [None, Some OSError]) =
     (Inl OSError,
      \<lparr>files = [''/tmp/output.json'' \<mapsto> ''{\"%QX0.0\":false}'', ''/tmp/tmpk3x9_a0b'' \<mapsto> []],
       faults = [], temp_names = [''q_7tt2mz''],
       trace = [MkTemp ''/tmp'' ''/tmp/tmpk3x9_a0b'', CloseFile ''/tmp/tmpk3x9_a0b'']\<rparr>)"
  by (simp add: atomic_write_json_def write_temp_def named_temporary_file_def demo_world_def
      next_fault_def target_directory_output temp_path_def path_join_def emit_def OUTPUT_PATH_def
      dump_and_sync_def write_file_def file_op_def fun_eq_iff Let_def)

theorem atomic_write_json_protocol_witness:
  "fst (atomic_write_json OUTPUT_PATH (JObj [(''b'', JInt 1), (''a'', JBool True)]) (demo_world []))
     = Inr ()
   \<and> fst (atomically_write_json OUTPUT_PATH (JObj [(''b'', JInt 1), (''a'', JBool True)])
            (demo_world [])) = Inr ()
   \<and> fst (atomic_write_json OUTPUT_PATH (JObj [(''b'', JInt 1), (''a'', JBool True)])
            (demo_world [None, Some OSError])) = Inl OSError
   \<and> keeps (demo_world [None, Some OSError])
        (snd (atomic_write_json OUTPUT_PATH (JObj [(''b'', JInt 1), (''a'', JBool True)])
               (demo_world [None, Some OSError])))
   \<and> dumps (JObj [(''a'', JBool True), (''b'', JInt 1)])
       = dumps (JObj [(''b'', JInt 1), (''a'', JBool True)])"
proof -
  have d: "distinct (map fst [(''b'', JInt 1), (''a'', JBool True)])
           \<and> distinct (map fst [(''a'', JBool True), (''b'', JInt 1)])
           \<and> set [(''a'', JBool True), (''b'', JInt 1)] = set [(''b'', JInt 1), (''a'', JBool True)]"
    by auto
  note ok = atomic_write_json_protocol[OF demo_write_succeeds]
  from ok have a: "atomically_write_json OUTPUT_PATH (JObj [(''b'', JInt 1), (''a'', JBool True)])
             (demo_world []) =
           atomic_write_json OUTPUT_PATH (JObj [(''b'', JInt 1), (''a'', JBool True)])
             (demo_world [])"
    by (simp only: demo_write_succeeds)
  from ok d have c: "dumps (JObj [(''a'', JBool True), (''b'', JInt 1)])
              = dumps (JObj [(''b'', JInt 1), (''a'', JBool True)])"
    by blast
  from atomic_write_json_protocol[OF demo_write_fails]
  have k: "keeps (demo_world [None, Some OSError])
             (snd (atomic_write_json OUTPUT_PATH (JObj [(''b'', JInt 1), (''a'', JBool True)])
                    (demo_world [None, Some OSError])))"
    by (simp add: demo_write_fails)
  show ?thesis
    using a c k by (simp add: demo_write_succeeds demo_write_fails)
qed

section \<open>Properties of the Scan Driver's apply-inputs step\<close>

lemma next_fault_no_fault:
  "no_fault (Suc n) w \<Longrightarrow>
     \<exists>w1. next_fault w = (None, w1) \<and> files w1 = files w \<and> trace w1 = trace w
          \<and> temp_names w1 = temp_names w \<and> no_fault n w1"
  by (cases "faults w") (auto simp: next_fault_def no_fault_def)

lemma read_text_ok:
  assumes "no_fault 2 w" and "files w path = Some c"
  shows "\<exists>w1. read_text path w = (Inr c, w1) \<and> files w1 = files w \<and> trace w1 = trace w"
proof -
  from assms(1) have "no_fault (Suc (Suc 0)) w" by (simp add: numeral_2_eq_2)
  from next_fault_no_fault[OF this] obtain w1 where
    1: "next_fault w = (None, w1)" "files w1 = files w" "trace w1 = trace w" "no_fault (Suc 0) w1"
    by blast
  from next_fault_no_fault[OF 1(4)] obtain w2 where
    2: "next_fault w1 = (None, w2)" "files w2 = files w1" "trace w2 = trace w1"
    by blast
  from 1 2 assms(2) show ?thesis by (simp add: read_text_def)
qed

lemma apply_items_trace:
  "apply_items api items p w = (r, p', w') \<Longrightarrow>
     trace w' = trace w @ map (\<lambda>(n, v). SetVar n v) (attempted api p (wanted items))
     \<and> files w' = files w \<and> faults w' = faults w"
proof (induction items arbitrary: p w)
  case Nil
  then show ?case by (simp add: wanted_def)
next
  case (Cons kv items)
  obtain key val where kv: "kv = (key, val)" by (cases kv)
  show ?case
  proof (cases "startswith key ''%''")
    case False
    with Cons kv show ?thesis by (simp add: wanted_def)
  next
    case True
    show ?thesis
    proof (cases "psm_set_var api (drop 1 key) val p")
      case (Inl e)
      with Cons.prems kv True show ?thesis by (auto simp: wanted_def emit_def)
    next
      case (Inr p1)
      with Cons.prems kv True
      have "apply_items api items p1 (emit (SetVar (drop 1 key) val) w) = (r, p', w')" by simp
      from Cons.IH[OF this] kv True Inr show ?thesis by (simp add: wanted_def emit_def)
    qed
  qed
qed

lemma attempted_never_raises:
  "never_raises api cs \<Longrightarrow> attempted api p cs = cs"
proof (induction cs arbitrary: p)
  case Nil
  then show ?case by simp
next
  case (Cons c cs)
  obtain n v where c: "c = (n, v)" by (cases c)
  from Cons.prems c have nr: "never_raises api cs" and "\<not> isl (psm_set_var api n v p)"
    by (auto simp: never_raises_def)
  then obtain p1 where "psm_set_var api n v p = Inr p1" by (cases "psm_set_var api n v p") auto
  with Cons.IH[OF nr] c show ?case by simp
qed



lemma apply_items_never_raises:
  "never_raises api (wanted items) \<Longrightarrow> fst (apply_items api items p w) = Inr ()"
proof (induction items arbitrary: p w)
  case Nil
  then show ?case by simp
next
  case (Cons kv items)
  obtain key val where kv: "kv = (key, val)" by (cases kv)
  show ?case
  proof (cases "startswith key ''%''")
    case False
    with Cons kv show ?thesis by (simp add: wanted_def)
  next
    case True
    with Cons.prems kv have nr: "never_raises api (wanted items)"
      and "\<not> isl (psm_set_var api (drop 1 key) val p)"
      by (auto simp: never_raises_def wanted_def)
    then obtain p1 where "psm_set_var api (drop 1 key) val p = Inr p1"
      by (cases "psm_set_var api (drop 1 key) val p") auto
    with Cons.IH[OF nr] kv True show ?thesis by simp
  qed
qed






section \<open>Properties of the Scan Driver's collect-outputs step\<close>

lemma map_of_dict_set: "map_of (dict_set k v d) = (map_of d)(k \<mapsto> v)"
  by (induction d) (auto simp: fun_eq_iff)

lemma set_dict_set: "fst ` set (dict_set k v d) = insert k (fst ` set d)"
  by (simp add: dom_map_of_conv_image_fst[symmetric] map_of_dict_set)

lemma distinct_dict_set: "distinct (map fst d) \<Longrightarrow> distinct (map fst (dict_set k v d))"
proof (induction d)
  case Nil
  then show ?case by simp
next
  case (Cons a d)
  obtain k' v' where a: "a = (k', v')" by (cases a)
  have "k' \<notin> fst ` set (dict_set k v d)" if "k' \<noteq> k"
    using Cons.prems a that by (simp add: set_dict_set)
  with Cons a show ?case by auto
qed

lemma collect_outputs_Inr:
  "collect_outputs api vars out p w = (Inr output, w') \<Longrightarrow>
     fst ` set output = fst ` set out \<union> (\<lambda>a. ''%'' @ a) ` set vars
     \<and> (distinct (map fst out) \<longrightarrow> distinct (map fst output))
     \<and> (\<forall>a \<in> set vars. \<exists>v. psm_get_var api a p = Inr v \<and> map_of output (''%'' @ a) = Some v)
     \<and> (\<forall>k. k \<notin> (\<lambda>a. ''%'' @ a) ` set vars \<longrightarrow> map_of output k = map_of out k)
     \<and> files w' = files w \<and> faults w' = faults w \<and> temp_names w' = temp_names w
     \<and> trace w' = trace w @ map GetVar vars"
proof (induction vars arbitrary: out w)
  case Nil
  then show ?case by simp
next
  case (Cons a vars)
  from Cons.prems obtain v where gv: "psm_get_var api a p = Inr v"
    by (cases "psm_get_var api a p") auto
  with Cons.prems
  have run: "collect_outputs api vars (dict_set (''%'' @ a) v out) p (emit (GetVar a) w) = (Inr output, w')"
    by simp
  note ih = Cons.IH[OF run]
  have key: "\<exists>v. psm_get_var api a p = Inr v \<and> map_of output (''%'' @ a) = Some v"
  proof (cases "a \<in> set vars")
    case True
    with ih show ?thesis by blast
  next
    case False
    then have "''%'' @ a \<notin> (\<lambda>a. ''%'' @ a) ` set vars" by auto
    with ih have "map_of output (''%'' @ a) = map_of (dict_set (''%'' @ a) v out) (''%'' @ a)"
      by blast
    with gv show ?thesis by (simp add: map_of_dict_set)
  qed
  have other: "map_of output k = map_of out k" if "k \<notin> (\<lambda>a. ''%'' @ a) ` set (a # vars)" for k
  proof -
    from that have "k \<notin> (\<lambda>a. ''%'' @ a) ` set vars" and "k \<noteq> ''%'' @ a" by auto
    with ih show ?thesis by (simp add: map_of_dict_set)
  qed
  from ih key other show ?case
    by (auto simp: set_dict_set distinct_dict_set emit_def)
qed

lemma collect_outputs_Inl:
  "collect_outputs api vars out p w = (Inl e, w') \<Longrightarrow>
     files w' = files w \<and> faults w' = faults w
     \<and> (\<exists>evs. trace w' = trace w @ evs \<and> list_all (\<lambda>ev. \<not> is_Replace ev) evs)"
proof (induction vars arbitrary: out w)
  case Nil
  then show ?case by simp
next
  case (Cons a vars)
  show ?case
  proof (cases "psm_get_var api a p")
    case (Inl e')
    with Cons.prems show ?thesis by (auto simp: emit_def is_Replace_def)
  next
    case (Inr v)
    with Cons.prems
    have "collect_outputs api vars (dict_set (''%'' @ a) v out) p (emit (GetVar a) w) = (Inl e, w')"
      by simp
    from Cons.IH[OF this] obtain evs where
      "files w' = files w" "faults w' = faults w" "trace w' = trace w @ GetVar a # evs"
      "list_all (\<lambda>ev. \<not> is_Replace ev) evs"
      by (auto simp: emit_def)
    then show ?thesis by (auto simp: is_Replace_def)
  qed
qed

lemma collect_outputs_world:
  "fst (collect_outputs api vars out p w2) = fst (collect_outputs api vars out p w)"
proof (induction vars arbitrary: out w w2)
  case Nil
  then show ?case by simp
next
  case (Cons a vars)
  then show ?case by (cases "psm_get_var api a p") auto
qed


lemma write_temp_frame:
  assumes "write_temp d obj w = (r, w')"
  shows "(files w' = files w \<and> trace w' = trace w)
       \<or> (\<exists>t \<in> temp_path d ` set (temp_names w). files w t = None \<and> frame t w w')"
proof -
  obtain r1 w1 where s1: "named_temporary_file d w = (r1, w1)"
    by (cases "named_temporary_file d w")
  show ?thesis
  proof (cases r1)
    case (Inl e)
    with assms s1 have "w' = w1" by (simp add: write_temp_def)
    with named_temporary_file_Inl[OF s1[unfolded Inl]] show ?thesis by simp
  next
    case (Inr t)
    note n = named_temporary_file_Inr[OF s1[unfolded Inr]]
    note f1 = frame_named_temporary_file[OF s1[unfolded Inr]]
    obtain r2 w2 where s2: "dump_and_sync t obj w1 = (r2, w2)"
      by (cases "dump_and_sync t obj w1")
    note f2 = frame_trans[OF f1 frame_dump_and_sync[OF s2]]
    obtain r3 w3 where s3: "close_file t w2 = (r3, w3)" by (cases "close_file t w2")
    note f3 = frame_trans[OF f2 frame_close_file[OF s3]]
    have f2': "frame t w (emit (CloseFile t) w2)"
      by (rule frame_trans[OF f2 frame_emit]) (simp add: is_Replace_def)
    have "w' = emit (CloseFile t) w2 \<or> w' = w3"
      using assms s1 Inr s2 s3 by (auto simp: write_temp_def split: sum.splits)
    with f2' f3 have "frame t w w'" by auto
    with n show ?thesis by blast
  qed
qed

lemma write_temp_others:
  assumes "write_temp d obj w = (r, w')" and "p \<notin> temp_path d ` set (temp_names w)"
  shows "files w' p = files w p"
  using write_temp_frame[OF assms(1)] assms(2) by (auto simp: frame_def)

lemma atomic_write_json_slot:
  assumes "atomic_write_json path obj w = (r, w')"
    and "path \<notin> temp_path (target_directory path) ` set (temp_names w)"
  shows "(r = Inr () \<and> files w' path = Some (dumps obj))
       \<or> (r \<noteq> Inr () \<and> files w' path = files w path)"
proof (cases r)
  case (Inr u)
  with atomic_write_json_result[OF assms(1)] show ?thesis by auto
next
  case (Inl e)
  obtain r1 w1 where s1: "write_temp (target_directory path) obj w = (r1, w1)"
    by (cases "write_temp (target_directory path) obj w")
  note o = write_temp_others[OF s1 assms(2)]
  show ?thesis
  proof (cases r1)
    case Inl1: (Inl e1)
    with assms(1) s1 have "w' = w1" by (simp add: atomic_write_json_def)
    with o Inl show ?thesis by simp
  next
    case (Inr t)
    with assms(1) s1 Inl have "os_replace t path w1 = (Inl e, w')"
      by (simp add: atomic_write_json_def)
    from os_replace_Inl[OF this] o Inl show ?thesis by simp
  qed
qed

lemma temp_path_tmp: "temp_path ''/tmp'' n = ''/tmp/tmp'' @ n"
  by (simp add: temp_path_def path_join_def)

lemma output_path_not_temp: "OUTPUT_PATH \<notin> temp_path (target_directory OUTPUT_PATH) ` S"
proof
  assume "OUTPUT_PATH \<in> temp_path (target_directory OUTPUT_PATH) ` S"
  then obtain n where "OUTPUT_PATH = temp_path (target_directory OUTPUT_PATH) n" by blast
  then have "''/tmp/output.json'' = ''/tmp/tmp'' @ n"
    by (simp only: OUTPUT_PATH_def target_directory_output temp_path_tmp)
  then have "take 6 ''/tmp/output.json'' = take 6 (''/tmp/tmp'' @ n)"
    by (rule arg_cong)
  then show False by simp
qed

text \<open>
  C4. The snapshot of a scan is built from the empty dictionary and the controller
  alone: it is the same whatever the world (and the outbound slot in it) holds. When
  every \<open>psm.get_var\<close> answers, its keys are distinct and are exactly the names of
  \<open>OUTPUT_VARS\<close> with the sentinel in front, each with the value \<open>psm.get_var\<close>
  returned for that name; after the step the outbound slot holds the serialization
  of that snapshot, or, when the write failed, what it held before. When a
  \<open>psm.get_var\<close> raises, no file is touched.
\<close>

theorem update_outputs_snapshot:
  assumes "update_outputs api p w = (r, w')"
  shows "(\<forall>w2. fst (collect_outputs api OUTPUT_VARS [] p w2) = fst (collect_outputs api OUTPUT_VARS [] p w))
       \<and> (case fst (collect_outputs api OUTPUT_VARS [] p w) of
            Inl e \<Rightarrow> files w' = files w
          | Inr output \<Rightarrow>
              fst ` set output = (\<lambda>name. ''%'' @ name) ` set OUTPUT_VARS
              \<and> distinct (map fst output)
              \<and> (\<forall>name \<in> set OUTPUT_VARS.
                    \<exists>v. psm_get_var api name p = Inr v \<and> map_of output (''%'' @ name) = Some v)
              \<and> (files w' OUTPUT_PATH = Some (dumps (JObj output))
                  \<or> files w' OUTPUT_PATH = files w OUTPUT_PATH))"
proof (rule conjI)
  show "\<forall>w2. fst (collect_outputs api OUTPUT_VARS [] p w2) = fst (collect_outputs api OUTPUT_VARS [] p w)"
    by (rule allI) (rule collect_outputs_world)
next
  obtain c w1 where col: "collect_outputs api OUTPUT_VARS [] p w = (c, w1)"
    by (cases "collect_outputs api OUTPUT_VARS [] p w")
  show "case fst (collect_outputs api OUTPUT_VARS [] p w) of
            Inl e \<Rightarrow> files w' = files w
          | Inr output \<Rightarrow>
              fst ` set output = (\<lambda>name. ''%'' @ name) ` set OUTPUT_VARS
              \<and> distinct (map fst output)
              \<and> (\<forall>name \<in> set OUTPUT_VARS.
                    \<exists>v. psm_get_var api name p = Inr v \<and> map_of output (''%'' @ name) = Some v)
              \<and> (files w' OUTPUT_PATH = Some (dumps (JObj output))
                  \<or> files w' OUTPUT_PATH = files w OUTPUT_PATH)"
  proof (cases c)
    case (Inl e)
    from collect_outputs_Inl[OF col[unfolded Inl]] have "files w1 = files w" by simp
    moreover from assms col Inl have "files w' = files w1"
      by (auto simp: update_outputs_def update_outputs_body_def emit_def split: if_splits)
    ultimately show ?thesis using col Inl by simp
  next
    case (Inr outp)
    note c = collect_outputs_Inr[OF col[unfolded Inr]]
    obtain r2 w2 where wr: "atomic_write_json OUTPUT_PATH (JObj outp) w1 = (r2, w2)"
      by (cases "atomic_write_json OUTPUT_PATH (JObj outp) w1")
    from atomic_write_json_slot[OF wr output_path_not_temp] c
    have slot: "files w2 OUTPUT_PATH = Some (dumps (JObj outp))
                \<or> files w2 OUTPUT_PATH = files w OUTPUT_PATH"
      by auto
    from assms col Inr wr have "files w' = files w2"
      by (auto simp: update_outputs_def update_outputs_body_def emit_def split: sum.splits if_splits)
    with slot c col Inr show ?thesis by (simp del: dumps.simps map_of_eq_Some_iff)
  qed
qed


lemma demo_collect:
  "collect_outputs demo_psm OUTPUT_VARS [] (3, [(''QX0.0'', JBool True)]) w =
     (Inr [(''%QX0.0'', JBool True)], emit (GetVar ''QX0.0'') w)"
  by (simp add: OUTPUT_VARS_def demo_psm_def)

lemma demo_update_outputs:
  "update_outputs demo_psm (3, [(''QX0.0'', JBool True)]) (demo_world []) =
     (Inr (),
      \<lparr>files = [''/tmp/output.json'' \<mapsto> ''{\"%QX0.0\":true}''], faults = [],
       temp_names = [''q_7tt2mz''],
       trace = [GetVar ''QX0.0'', MkTemp ''/tmp'' ''/tmp/tmpk3x9_a0b'',
                WriteFile ''/tmp/tmpk3x9_a0b'' ''{\"%QX0.0\":true}'',
                Flush ''/tmp/tmpk3x9_a0b'', Fsync ''/tmp/tmpk3x9_a0b'',
                CloseFile ''/tmp/tmpk3x9_a0b'',
                Replace ''/tmp/tmpk3x9_a0b'' ''/tmp/output.json'']\<rparr>)"
  by (simp add: update_outputs_def update_outputs_body_def demo_collect
      atomic_write_json_def write_temp_def named_temporary_file_def demo_world_def
      next_fault_def target_directory_output temp_path_def path_join_def emit_def OUTPUT_PATH_def
      dump_and_sync_def write_file_def file_op_def flush_def fsync_def close_file_def
      os_replace_def fun_eq_iff Let_def encode_str_def escape_char_def)

theorem update_outputs_snapshot_witness:
  "fst (update_outputs demo_psm (3, [(''QX0.0'', JBool True)]) (demo_world [])) = Inr ()
   \<and> fst (collect_outputs demo_psm OUTPUT_VARS [] (3, [(''QX0.0'', JBool True)]) (demo_world []))
        = Inr [(''%QX0.0'', JBool True)]
   \<and> fst ` set [(''%QX0.0'', JBool True)] = (\<lambda>name. ''%'' @ name) ` set OUTPUT_VARS
   \<and> psm_get_var demo_psm ''QX0.0'' (3, [(''QX0.0'', JBool True)]) = Inr (JBool True)
   \<and> map_of [(''%QX0.0'', JBool True)] (''%'' @ ''QX0.0'') = Some (JBool True)
   \<and> files (snd (update_outputs demo_psm (3, [(''QX0.0'', JBool True)]) (demo_world []))) OUTPUT_PATH
        = Some ''{\"%QX0.0\":true}''"
proof -
  have c: "fst (collect_outputs demo_psm OUTPUT_VARS [] (3, [(''QX0.0'', JBool True)]) (demo_world []))
             = Inr [(''%QX0.0'', JBool True)]"
    by (simp add: demo_collect)
  from update_outputs_snapshot[OF demo_update_outputs]
  have "fst ` set [(''%QX0.0'', JBool True)] = (\<lambda>name. ''%'' @ name) ` set OUTPUT_VARS
        \<and> (\<forall>name \<in> set OUTPUT_VARS.
              \<exists>v. psm_get_var demo_psm name (3, [(''QX0.0'', JBool True)]) = Inr v
                  \<and> map_of [(''%QX0.0'', JBool True)] (''%'' @ name) = Some v)"
    by (simp only: c sum.case) blast
  then have "fst ` set [(''%QX0.0'', JBool True)] = (\<lambda>name. ''%'' @ name) ` set OUTPUT_VARS
        \<and> psm_get_var demo_psm ''QX0.0'' (3, [(''QX0.0'', JBool True)]) = Inr (JBool True)
        \<and> map_of [(''%QX0.0'', JBool True)] (''%'' @ ''QX0.0'') = Some (JBool True)"
    by (auto simp: OUTPUT_VARS_def)
  with c show ?thesis
    by (simp add: demo_update_outputs OUTPUT_PATH_def)
qed

section \<open>Properties of the State Store's read and of the Scan Driver's init\<close>

lemma no_fault_mono: "no_fault n w \<Longrightarrow> m \<le> n \<Longrightarrow> no_fault m w"
  unfolding no_fault_def list_all_iff
  using set_take_subset_set_take[of m n "faults w"] by blast

lemma no_fault_Nil: "faults w = [] \<Longrightarrow> no_fault n w"
  by (simp add: no_fault_def)








lemma dumps_empty_object: "dumps (JObj []) = ''{}''"
  by simp


lemma emit_fields:
  "files (emit ev w) = files w" "faults (emit ev w) = faults w"
  "temp_names (emit ev w) = temp_names w" "trace (emit ev w) = trace w @ [ev]"
  by (simp_all add: emit_def)






section \<open>Properties of the two places where a slot is read\<close>



lemma update_inputs_propagates:
  "fst (update_inputs api p w) = Inl e \<Longrightarrow> \<not> is_Exception e"
  by (auto simp: update_inputs_def split: prod.splits sum.splits if_splits)



lemma loads_open_brace: "json_loads ''{'' = None"
  by (simp add: json_loads_def parse_value.simps is_ws_def)



section \<open>Properties of the Inbound Adapter\<close>

lemma named_temporary_file_ok:
  assumes "no_fault (Suc n) w" and "name_left d w"
  shows "\<exists>t w1. named_temporary_file d w = (Inr t, w1) \<and> no_fault n w1"
proof -
  from next_fault_no_fault[OF assms(1)] obtain w1 where
    1: "next_fault w = (None, w1)" "files w1 = files w" "temp_names w1 = temp_names w"
       "no_fault n w1"
    by blast
  from assms(2) 1 have "dropWhile (\<lambda>n. files w1 (temp_path d n) \<noteq> None) (temp_names w1) \<noteq> []"
    by (auto simp: name_left_def list_ex_iff)
  then obtain m ms where
    c: "dropWhile (\<lambda>n. files w1 (temp_path d n) \<noteq> None) (temp_names w1) = m # ms"
    by (cases "dropWhile (\<lambda>n. files w1 (temp_path d n) \<noteq> None) (temp_names w1)") auto
  have "named_temporary_file d w =
          (Inr (temp_path d m), emit (MkTemp d (temp_path d m))
             (w1\<lparr>files := (files w1)(temp_path d m \<mapsto> []), temp_names := ms\<rparr>))"
    unfolding named_temporary_file_def 1(1) prod.case option.case c list.case Let_def ..
  moreover have "no_fault n (emit (MkTemp d (temp_path d m))
             (w1\<lparr>files := (files w1)(temp_path d m \<mapsto> []), temp_names := ms\<rparr>))"
    using 1(4) by (simp add: no_fault_def emit_def)
  ultimately show ?thesis by blast
qed

lemma file_op_ok:
  assumes "no_fault (Suc n) w" and "\<And>x. faults (eff x) = faults x"
  shows "\<exists>w1. file_op ev eff w = (Inr (), w1) \<and> no_fault n w1"
proof -
  from next_fault_no_fault[OF assms(1)] obtain w1 where
    1: "next_fault w = (None, w1)" "no_fault n w1"
    by blast
  then have "file_op ev eff w = (Inr (), emit ev (eff w1))"
    by (simp add: file_op_def)
  moreover from 1(2) assms(2) have "no_fault n (emit ev (eff w1))"
    by (simp add: no_fault_def emit_def)
  ultimately show ?thesis by blast
qed

lemma dump_and_sync_ok:
  assumes "no_fault (Suc (Suc (Suc n))) w"
  shows "\<exists>w1. dump_and_sync t obj w = (Inr (), w1) \<and> no_fault n w1"
proof -
  from file_op_ok[OF assms, of "\<lambda>w. w\<lparr>files := (files w)(t \<mapsto> dumps obj)\<rparr>" "WriteFile t (dumps obj)"]
  obtain w1 where 1: "write_file t (dumps obj) w = (Inr (), w1)" "no_fault (Suc (Suc n)) w1"
    by (auto simp: write_file_def)
  from file_op_ok[OF 1(2), of "\<lambda>w. w" "Flush t"]
  obtain w2 where 2: "flush t w1 = (Inr (), w2)" "no_fault (Suc n) w2"
    by (auto simp: flush_def)
  from file_op_ok[OF 2(2), of "\<lambda>w. w" "Fsync t"]
  obtain w3 where 3: "fsync t w2 = (Inr (), w3)" "no_fault n w3"
    by (auto simp: fsync_def)
  from 1 2 3 show ?thesis by (simp add: dump_and_sync_def)
qed

lemma atomic_write_json_ok:
  assumes "no_fault 6 w" and "name_left (target_directory path) w"
  shows "\<exists>w'. atomic_write_json path obj w = (Inr (), w')"
proof -
  let ?d = "target_directory path"
  from assms(1) have "no_fault (Suc (Suc (Suc (Suc (Suc (Suc 0)))))) w"
    by (simp add: eval_nat_numeral)
  from named_temporary_file_ok[OF this assms(2)] obtain t w1 where
    1: "named_temporary_file ?d w = (Inr t, w1)" "no_fault (Suc (Suc (Suc (Suc (Suc 0))))) w1"
    by blast
  from dump_and_sync_ok[OF 1(2)] obtain w2 where
    2: "dump_and_sync t obj w1 = (Inr (), w2)" "no_fault (Suc (Suc 0)) w2"
    by blast
  from file_op_ok[OF 2(2), of "\<lambda>w. w" "CloseFile t"] obtain w3 where
    3: "close_file t w2 = (Inr (), w3)" "no_fault (Suc 0) w3"
    by (auto simp: close_file_def)
  from 1 2 3 have wt: "write_temp ?d obj w = (Inr t, w3)"
    by (simp add: write_temp_def)
  from write_temp_Inr[OF wt] have ft: "files w3 t = Some (dumps obj)" by simp
  from next_fault_no_fault[OF 3(2)] obtain w4 where
    4: "next_fault w3 = (None, w4)" "files w4 = files w3"
    by blast
  with ft have "\<exists>w'. os_replace t path w3 = (Inr (), w')"
    by (simp add: os_replace_def)
  with wt show ?thesis by (simp add: atomic_write_json_def)
qed

lemma input_path_not_temp: "INPUT_PATH \<notin> temp_path (target_directory INPUT_PATH) ` S"
proof
  assume "INPUT_PATH \<in> temp_path (target_directory INPUT_PATH) ` S"
  then obtain n where "INPUT_PATH = temp_path (target_directory INPUT_PATH) n" by blast
  moreover have "target_directory ''/tmp/input.json'' = ''/tmp''"
    by (simp add: target_directory_def dirname_def rstrip_sep_def)
  ultimately have "''/tmp/input.json'' = ''/tmp/tmp'' @ n"
    by (simp only: INPUT_PATH_def temp_path_tmp)
  then have "take 6 ''/tmp/input.json'' = take 6 (''/tmp/tmp'' @ n)"
    by (rule arg_cong)
  then show False by simp
qed


lemma on_message_object:
  assumes dec: "utf8_decode payload = Some t" and obj: "json_loads t = Some (JObj items)"
    and run: "on_message payload w = (r, w')"
  shows "(files w' INPUT_PATH = Some (dumps (JObj items)) \<or> files w' INPUT_PATH = files w INPUT_PATH)
       \<and> (no_fault 6 w \<and> name_left (target_directory INPUT_PATH) w
            \<longrightarrow> r = Inr () \<and> files w' INPUT_PATH = Some (dumps (JObj items))
              \<and> last (trace w') = Print (InWrote (JObj items))
              \<and> (filter is_bad_key (map fst items) \<noteq> []
                    \<longrightarrow> Print (InBadKeys (filter is_bad_key (map fst items))) \<in> set (trace w')))"
proof -
  let ?bad = "filter is_bad_key (map fst items)"
  let ?w1 = "if ?bad \<noteq> [] then emit (Print (InBadKeys ?bad)) w else w"
  have w1: "files ?w1 = files w" "faults ?w1 = faults w" "temp_names ?w1 = temp_names w"
    by (simp_all add: emit_fields)
  have tr1: "?bad \<noteq> [] \<longrightarrow> Print (InBadKeys ?bad) \<in> set (trace ?w1)"
    by (simp add: emit_fields)
  obtain r2 w2 where wr: "atomic_write_json INPUT_PATH (JObj items) ?w1 = (r2, w2)"
    by (cases "atomic_write_json INPUT_PATH (JObj items) ?w1")
  from dec obj have body: "on_message_body payload w =
      (case r2 of Inl e \<Rightarrow> (Inl e, w2) | Inr _ \<Rightarrow> (Inr (), emit (Print (InWrote (JObj items))) w2))"
    using wr by (simp add: on_message_body_def atomically_write_json_eq Let_def split: sum.splits)
  from atomic_write_json_slot[OF wr input_path_not_temp] w1
  have slot: "(r2 = Inr () \<and> files w2 INPUT_PATH = Some (dumps (JObj items)))
            \<or> (r2 \<noteq> Inr () \<and> files w2 INPUT_PATH = files w INPUT_PATH)"
    by simp
  from run body have fw: "files w' = files w2"
    by (auto simp: on_message_def emit_fields split: sum.splits if_splits)
  have part1: "files w' INPUT_PATH = Some (dumps (JObj items)) \<or> files w' INPUT_PATH = files w INPUT_PATH"
    using slot fw by auto
  have part2: "r = Inr () \<and> files w' INPUT_PATH = Some (dumps (JObj items))
              \<and> last (trace w') = Print (InWrote (JObj items))
              \<and> (?bad \<noteq> [] \<longrightarrow> Print (InBadKeys ?bad) \<in> set (trace w'))"
    if ok: "no_fault 6 w \<and> name_left (target_directory INPUT_PATH) w"
  proof -
    from ok w1 have "no_fault 6 ?w1" and "name_left (target_directory INPUT_PATH) ?w1"
      by (simp_all add: no_fault_def name_left_def)
    from atomic_write_json_ok[OF this, of "JObj items"] wr have r2: "r2 = Inr ()" by auto
    with run body have r: "r = Inr ()" and w': "w' = emit (Print (InWrote (JObj items))) w2"
      by (simp_all add: on_message_def)
    from atomic_write_json_result[OF wr] r2 obtain evs where "trace w2 = trace ?w1 @ evs"
      by auto
    with tr1 have "?bad \<noteq> [] \<longrightarrow> Print (InBadKeys ?bad) \<in> set (trace w2)"
      by auto
    with r w' slot r2 show ?thesis by (simp add: emit_fields)
  qed
  from part1 part2 show ?thesis by blast
qed









section \<open>Properties of the Outbound Adapter\<close>






















section \<open>Properties of the scan loop under errors\<close>

lemma os_step_trans: "os_step w r1 w1 \<Longrightarrow> os_step w1 r2 w2 \<Longrightarrow> os_step w r2 w2"
  unfolding os_step_def from_os_def by blast

lemma os_step_emit: "os_step w r w1 \<Longrightarrow> os_step w r (emit ev w1)"
  by (simp add: os_step_def emit_def)

lemma os_step_Inr: "os_step w r1 w1 \<Longrightarrow> os_step w (Inr x) w1"
  by (simp add: os_step_def)

lemma os_step_Inl: "os_step w (Inl e :: exn + 'a) w1 \<Longrightarrow> os_step w (Inl e :: exn + 'b) w1"
  by (simp add: os_step_def)

lemma os_step_next_fault:
  "next_fault w = (f, w1) \<Longrightarrow>
     os_step w (case f of None \<Rightarrow> Inr () | Some e \<Rightarrow> Inl e) w1"
  by (auto simp: next_fault_def os_step_def from_os_def split: list.splits option.splits)

lemma os_step_file_op:
  assumes "file_op ev eff w = (r, w')" and "\<And>x. faults (eff x) = faults x"
  shows "os_step w r w'"
proof (cases "next_fault w")
  case (Pair f w1)
  note o = os_step_next_fault[OF Pair]
  show ?thesis
  proof (cases f)
    case None
    with assms Pair have "r = Inr ()" and "w' = emit ev (eff w1)" by (simp_all add: file_op_def)
    with o None assms(2) show ?thesis by (simp add: os_step_def emit_def)
  next
    case (Some e)
    with assms Pair have "r = Inl e" and "w' = w1" by (simp_all add: file_op_def)
    with o Some show ?thesis by (simp add: os_step_def)
  qed
qed

lemma os_step_named_temporary_file:
  assumes "named_temporary_file d w = (r, w')"
  shows "os_step w r w'"
proof (cases "next_fault w")
  case (Pair f w1)
  note o = os_step_next_fault[OF Pair]
  show ?thesis
  proof (cases f)
    case (Some e')
    have "named_temporary_file d w = (Inl e', w1)"
      unfolding named_temporary_file_def Pair Some prod.case option.case ..
    with assms have "r = Inl e'" and "w' = w1" by simp_all
    with o Some show ?thesis by (simp add: os_step_def)
  next
    case None
    show ?thesis
    proof (cases "dropWhile (\<lambda>n. files w1 (temp_path d n) \<noteq> None) (temp_names w1)")
      case Nil
      have "named_temporary_file d w = (Inl OSError, w1\<lparr>temp_names := []\<rparr>)"
        unfolding named_temporary_file_def Pair None prod.case option.case Nil list.case ..
      with assms have "r = Inl OSError" and "w' = w1\<lparr>temp_names := []\<rparr>" by simp_all
      with o None show ?thesis by (simp add: os_step_def from_os_def)
    next
      case (Cons n ns)
      have "named_temporary_file d w =
              (Inr (temp_path d n), emit (MkTemp d (temp_path d n))
                 (w1\<lparr>files := (files w1)(temp_path d n \<mapsto> []), temp_names := ns\<rparr>))"
        unfolding named_temporary_file_def Pair None prod.case option.case Cons list.case Let_def ..
      with assms have "r = Inr (temp_path d n)"
        and "w' = emit (MkTemp d (temp_path d n))
                 (w1\<lparr>files := (files w1)(temp_path d n \<mapsto> []), temp_names := ns\<rparr>)"
        by simp_all
      with o None show ?thesis by (simp add: os_step_def emit_def)
    qed
  qed
qed

lemma os_step_write_file: "write_file t c w = (r, w') \<Longrightarrow> os_step w r w'"
  unfolding write_file_def by (erule os_step_file_op) simp

lemma os_step_flush: "flush t w = (r, w') \<Longrightarrow> os_step w r w'"
  unfolding flush_def by (erule os_step_file_op) simp

lemma os_step_fsync: "fsync t w = (r, w') \<Longrightarrow> os_step w r w'"
  unfolding fsync_def by (erule os_step_file_op) simp

lemma os_step_close_file: "close_file t w = (r, w') \<Longrightarrow> os_step w r w'"
  unfolding close_file_def by (erule os_step_file_op) simp

lemma os_step_dump_and_sync:
  assumes "dump_and_sync t obj w = (r, w')"
  shows "os_step w r w'"
proof -
  obtain r1 w1 where s1: "write_file t (dumps obj) w = (r1, w1)"
    by (cases "write_file t (dumps obj) w")
  note o1 = os_step_write_file[OF s1]
  show ?thesis
  proof (cases r1)
    case (Inl e)
    with assms s1 have "r = r1" and "w' = w1" by (simp_all add: dump_and_sync_def)
    with o1 show ?thesis by simp
  next
    case (Inr u)
    obtain r2 w2 where s2: "flush t w1 = (r2, w2)" by (cases "flush t w1")
    note o2 = os_step_trans[OF o1 os_step_flush[OF s2]]
    show ?thesis
    proof (cases r2)
      case Inl2: (Inl e)
      with assms s1 Inr s2 have "r = r2" and "w' = w2" by (simp_all add: dump_and_sync_def)
      with o2 show ?thesis by simp
    next
      case Inr2: (Inr u2)
      with assms s1 Inr s2 have "fsync t w2 = (r, w')" by (simp add: dump_and_sync_def)
      from os_step_trans[OF o2 os_step_fsync[OF this]] show ?thesis .
    qed
  qed
qed

lemma os_step_write_temp:
  assumes "write_temp d obj w = (r, w')"
  shows "os_step w r w'"
proof -
  obtain r1 w1 where s1: "named_temporary_file d w = (r1, w1)"
    by (cases "named_temporary_file d w")
  note o1 = os_step_named_temporary_file[OF s1]
  show ?thesis
  proof (cases r1)
    case (Inl e)
    with assms s1 have "r = Inl e" and "w' = w1" by (simp_all add: write_temp_def)
    with o1 Inl show ?thesis by (simp add: os_step_def)
  next
    case (Inr t)
    obtain r2 w2 where s2: "dump_and_sync t obj w1 = (r2, w2)"
      by (cases "dump_and_sync t obj w1")
    note o2 = os_step_trans[OF o1 os_step_dump_and_sync[OF s2]]
    show ?thesis
    proof (cases r2)
      case Inl2: (Inl e)
      with assms s1 Inr s2 have "r = Inl e" and "w' = emit (CloseFile t) w2"
        by (simp_all add: write_temp_def)
      with o2 Inl2 show ?thesis by (simp add: os_step_def emit_def)
    next
      case Inr2: (Inr u)
      obtain r3 w3 where s3: "close_file t w2 = (r3, w3)" by (cases "close_file t w2")
      note o3 = os_step_trans[OF o2 os_step_close_file[OF s3]]
      from assms s1 Inr s2 Inr2 s3 have "w' = w3" and "(\<exists>e. r = Inl e \<and> r3 = Inl e) \<or> r = Inr t"
        by (auto simp: write_temp_def split: sum.splits)
      with o3 show ?thesis by (auto simp: os_step_def)
    qed
  qed
qed

lemma os_step_os_replace:
  assumes "os_replace src dst w = (r, w')"
  shows "os_step w r w'"
proof (cases "next_fault w")
  case (Pair f w1)
  note o = os_step_next_fault[OF Pair]
  show ?thesis
  proof (cases f)
    case (Some e)
    with assms Pair have "r = Inl e" and "w' = w1" by (simp_all add: os_replace_def)
    with o Some show ?thesis by (simp add: os_step_def)
  next
    case None
    show ?thesis
    proof (cases "files w1 src")
      case N: None
      with assms Pair None have "r = Inl OSError" and "w' = w1" by (simp_all add: os_replace_def)
      with o None show ?thesis by (simp add: os_step_def from_os_def)
    next
      case (Some c)
      with assms Pair None have "r = Inr ()"
        and "w' = emit (Replace src dst) (w1\<lparr>files := ((files w1)(src := None))(dst \<mapsto> c)\<rparr>)"
        by (simp_all add: os_replace_def)
      with o None show ?thesis by (simp add: os_step_def emit_def)
    qed
  qed
qed

lemma os_step_atomic_write_json:
  assumes "atomic_write_json path obj w = (r, w')"
  shows "os_step w r w'"
proof -
  obtain r1 w1 where s1: "write_temp (target_directory path) obj w = (r1, w1)"
    by (cases "write_temp (target_directory path) obj w")
  note o1 = os_step_write_temp[OF s1]
  show ?thesis
  proof (cases r1)
    case (Inl e)
    with assms s1 have "r = Inl e" and "w' = w1" by (simp_all add: atomic_write_json_def)
    with o1 Inl show ?thesis by (simp add: os_step_def)
  next
    case (Inr t)
    with assms s1 have "os_replace t path w1 = (r, w')" by (simp add: atomic_write_json_def)
    from os_step_trans[OF o1 os_step_os_replace[OF this]] show ?thesis .
  qed
qed

lemma os_step_read_text:
  assumes "read_text path w = (r, w')"
  shows "os_step w r w'"
proof (cases "next_fault w")
  case (Pair f w1)
  note o = os_step_next_fault[OF Pair]
  show ?thesis
  proof (cases f)
    case (Some e)
    with assms Pair have "r = Inl e" and "w' = w1" by (simp_all add: read_text_def)
    with o Some show ?thesis by (simp add: os_step_def)
  next
    case None
    show ?thesis
    proof (cases "files w1 path")
      case N: None
      with assms Pair None have "r = Inl OSError" and "w' = w1" by (simp_all add: read_text_def)
      with o None show ?thesis by (simp add: os_step_def from_os_def)
    next
      case (Some c)
      obtain f2 w2 where p2: "next_fault w1 = (f2, w2)" by (cases "next_fault w1")
      from o None have o1: "os_step w (Inr () :: exn + unit) w1" by simp
      note o2 = os_step_trans[OF o1 os_step_next_fault[OF p2]]
      from assms Pair None Some p2
      have "w' = w2" and "r = (case f2 of None \<Rightarrow> Inr c | Some e \<Rightarrow> Inl e)"
        by (auto simp: read_text_def split: option.splits)
      with o2 show ?thesis by (cases f2) (simp_all add: os_step_def)
    qed
  qed
qed

lemma safe_faults_from_os: "safe_faults w \<Longrightarrow> from_os w e \<Longrightarrow> is_Exception e"
  by (auto simp: safe_faults_def from_os_def list_all_iff is_Exception_def)

lemma safe_faults_later: "safe_faults w \<Longrightarrow> set (faults w') \<subseteq> set (faults w) \<Longrightarrow> safe_faults w'"
  by (auto simp: safe_faults_def list_all_iff)

lemma safe_faults_emit: "safe_faults (emit ev w) = safe_faults w"
  by (simp add: safe_faults_def emit_def)

lemma apply_items_raises:
  "apply_items api items p w = (Inl e, p', w') \<Longrightarrow> \<exists>n v q. psm_set_var api n v q = Inl e"
proof (induction items arbitrary: p w)
  case Nil
  then show ?case by simp
next
  case (Cons kv items)
  obtain key val where kv: "kv = (key, val)" by (cases kv)
  show ?case
  proof (cases "startswith key ''%''")
    case False
    with Cons kv show ?thesis by simp
  next
    case True
    show ?thesis
    proof (cases "psm_set_var api (drop 1 key) val p")
      case (Inl e')
      with Cons.prems kv True have "e' = e" by simp
      with Inl show ?thesis by blast
    next
      case (Inr p1)
      with Cons.prems kv True
      have "apply_items api items p1 (emit (SetVar (drop 1 key) val) w) = (Inl e, p', w')" by simp
      then show ?thesis by (rule Cons.IH)
    qed
  qed
qed

lemma collect_outputs_raises:
  "collect_outputs api vars out p w = (Inl e, w') \<Longrightarrow> \<exists>n. psm_get_var api n p = Inl e"
proof (induction vars arbitrary: out w)
  case Nil
  then show ?case by simp
next
  case (Cons a vars)
  show ?case
  proof (cases "psm_get_var api a p")
    case (Inl e')
    with Cons.prems have "e' = e" by simp
    with Inl show ?thesis by blast
  next
    case (Inr v)
    with Cons.prems
    have "collect_outputs api vars (dict_set (''%'' @ a) v out) p (emit (GetVar a) w) = (Inl e, w')"
      by simp
    then show ?thesis by (rule Cons.IH)
  qed
qed

lemma update_inputs_body_safe:
  assumes "update_inputs_body api p w = (r, p', w')" and "safe_psm api" and "safe_faults w"
  shows "safe_faults w' \<and> (\<forall>e. r = Inl e \<longrightarrow> is_Exception e)"
proof (cases "path_exists INPUT_PATH w")
  case False
  with assms show ?thesis by (auto simp: update_inputs_body_def)
next
  case True
  obtain r1 w1 where rd: "read_text INPUT_PATH w = (r1, w1)" by (cases "read_text INPUT_PATH w")
  note o = os_step_read_text[OF rd]
  then have s1: "safe_faults w1" using assms(3) by (auto simp: os_step_def intro: safe_faults_later)
  show ?thesis
  proof (cases r1)
    case (Inl e)
    with assms(1) True rd have "r = Inl e" and "w' = w1" by (simp_all add: update_inputs_body_def)
    moreover from o Inl assms(3) have "is_Exception e"
      by (auto simp: os_step_def intro: safe_faults_from_os)
    ultimately show ?thesis using s1 by simp
  next
    case (Inr body)
    show ?thesis
    proof (cases "json_loads body")
      case None
      with assms(1) True rd Inr have "r = Inl JSONDecodeError" and "w' = w1"
        by (simp_all add: update_inputs_body_def)
      with s1 show ?thesis by (simp add: is_Exception_def)
    next
      case (Some v)
      show ?thesis
      proof (cases "is_object v")
        case False
        with assms(1) True rd Inr Some have "r = Inr ()" and "w' = emit (Print PsmNonObject) w1"
          by (auto simp: update_inputs_body_def is_object_def split: json.splits)
        with s1 show ?thesis by (simp add: safe_faults_emit)
      next
        case T: True
        then obtain items where v: "v = JObj items" by (cases v) (auto simp: is_object_def)
        with assms(1) True rd Inr Some have ai: "apply_items api items p w1 = (r, p', w')"
          by (simp add: update_inputs_body_def)
        from apply_items_trace[OF ai] s1 have "safe_faults w'" by (simp add: safe_faults_def)
        moreover have "is_Exception e" if "r = Inl e" for e
          using apply_items_raises[OF ai[unfolded that]] assms(2) by (auto simp: safe_psm_def)
        ultimately show ?thesis by blast
      qed
    qed
  qed
qed

lemma update_inputs_safe:
  assumes "safe_psm api" and "safe_faults w"
  shows "fst (update_inputs api p w) = Inr () \<and> safe_faults (snd (snd (update_inputs api p w)))"
proof -
  obtain r p1 w1 where b: "update_inputs_body api p w = (r, p1, w1)"
    by (cases "update_inputs_body api p w")
  from update_inputs_body_safe[OF b assms] b show ?thesis
    by (cases r) (simp_all add: update_inputs_def safe_faults_emit)
qed

lemma update_outputs_body_safe:
  assumes "update_outputs_body api p w = (r, w')" and "safe_psm api" and "safe_faults w"
  shows "safe_faults w' \<and> (\<forall>e. r = Inl e \<longrightarrow> is_Exception e)"
proof -
  obtain c w1 where col: "collect_outputs api OUTPUT_VARS [] p w = (c, w1)"
    by (cases "collect_outputs api OUTPUT_VARS [] p w")
  show ?thesis
  proof (cases c)
    case (Inl e)
    with assms(1) col have "r = Inl e" and "w' = w1" by (simp_all add: update_outputs_body_def)
    moreover from collect_outputs_Inl[OF col[unfolded Inl]] assms(3) have "safe_faults w1"
      by (simp add: safe_faults_def)
    moreover from collect_outputs_raises[OF col[unfolded Inl]] assms(2) have "is_Exception e"
      by (auto simp: safe_psm_def)
    ultimately show ?thesis by simp
  next
    case (Inr outp)
    from collect_outputs_Inr[OF col[unfolded Inr]] assms(3) have s1: "safe_faults w1"
      by (simp add: safe_faults_def)
    from assms(1) col Inr have "atomic_write_json OUTPUT_PATH (JObj outp) w1 = (r, w')"
      by (simp add: update_outputs_body_def)
    from os_step_atomic_write_json[OF this] s1 show ?thesis
      by (auto simp: os_step_def intro: safe_faults_later safe_faults_from_os)
  qed
qed

lemma update_outputs_safe:
  assumes "safe_psm api" and "safe_faults w"
  shows "fst (update_outputs api p w) = Inr () \<and> safe_faults (snd (update_outputs api p w))"
proof -
  obtain r w1 where b: "update_outputs_body api p w = (r, w1)"
    by (cases "update_outputs_body api p w")
  from update_outputs_body_safe[OF b assms] b show ?thesis
    by (cases r) (simp_all add: update_outputs_def safe_faults_emit)
qed

lemma scan_period_safe:
  assumes "safe_psm api" and "safe_faults w"
  shows "fst (scan_period api p w) = Inr () \<and> safe_faults (snd (snd (scan_period api p w)))"
proof -
  obtain r1 p1 w1 where i: "update_inputs api p w = (r1, p1, w1)"
    by (cases "update_inputs api p w")
  from update_inputs_safe[OF assms, of p] i have r1: "r1 = Inr ()" and s1: "safe_faults w1"
    by simp_all
  obtain r2 w2 where o: "update_outputs api p1 w1 = (r2, w2)"
    by (cases "update_outputs api p1 w1")
  from update_outputs_safe[OF assms(1) s1, of p1] o have "r2 = Inr ()" and "safe_faults w2"
    by simp_all
  with i r1 o show ?thesis by (simp add: scan_period_def)
qed

lemma update_outputs_propagates:
  "fst (update_outputs api p w) = Inl e \<Longrightarrow> \<not> is_Exception e"
  by (auto simp: update_outputs_def split: prod.splits sum.splits if_splits)


lemma scan_for_loop: "scan_for api n p w = Some x \<Longrightarrow> scan_loop api p w = Some x"
proof (induction n arbitrary: p w)
  case 0
  then show ?case by simp
next
  case (Suc n)
  obtain quit p1 where q: "psm_should_quit api p = (quit, p1)" by (cases "psm_should_quit api p")
  obtain res p2 w2 where sp: "scan_period api p1 w = (res, p2, w2)"
    by (cases "scan_period api p1 w")
  show ?case
  proof (cases "quit \<or> isl res")
    case True
    with Suc.prems q sp show ?thesis
      by (subst scan_loop.simps) (auto split: if_splits)
  next
    case False
    with Suc.prems q sp have "scan_for api n p2 w2 = Some x" by simp
    from Suc.IH[OF this] False q sp show ?thesis
      by (subst scan_loop.simps) simp
  qed
qed

lemma scan_for_safe:
  "safe_psm api \<Longrightarrow> safe_faults w \<Longrightarrow> scan_for api n p w = Some x \<Longrightarrow>
     fst x = Inr () \<and> last (trace (snd (snd x))) = PsmStop"
proof (induction n arbitrary: p w)
  case 0
  then show ?case by simp
next
  case (Suc n)
  obtain quit p1 where q: "psm_should_quit api p = (quit, p1)" by (cases "psm_should_quit api p")
  obtain res p2 w2 where sp: "scan_period api p1 w = (res, p2, w2)"
    by (cases "scan_period api p1 w")
  from scan_period_safe[OF Suc.prems(1,2), of p1] sp have res: "res = Inr ()" and s2: "safe_faults w2"
    by simp_all
  show ?case
  proof (cases quit)
    case True
    with Suc.prems(3) q show ?thesis by (auto simp: emit_def)
  next
    case False
    with Suc.prems(3) q sp res have "scan_for api n p2 w2 = Some x" by simp
    from Suc.IH[OF Suc.prems(1) s2 this] show ?thesis .
  qed
qed

lemma stop_asked_scan_for:
  "safe_psm api \<Longrightarrow> safe_faults w \<Longrightarrow> stop_asked api n p w \<Longrightarrow> \<exists>x. scan_for api n p w = Some x"
proof (induction n arbitrary: p w)
  case 0
  then show ?case by simp
next
  case (Suc n)
  obtain quit p1 where q: "psm_should_quit api p = (quit, p1)" by (cases "psm_should_quit api p")
  obtain res p2 w2 where sp: "scan_period api p1 w = (res, p2, w2)"
    by (cases "scan_period api p1 w")
  from scan_period_safe[OF Suc.prems(1,2), of p1] sp have res: "res = Inr ()" and s2: "safe_faults w2"
    by simp_all
  show ?case
  proof (cases quit)
    case True
    with q show ?thesis by simp
  next
    case False
    with Suc.prems(3) q sp have "stop_asked api n p2 w2" by simp
    from Suc.IH[OF Suc.prems(1) s2 this] False q sp res show ?thesis by simp
  qed
qed

lemma scan_loop_only_stop:
  assumes "scan_loop api p w = Some x"
  shows "safe_psm api \<longrightarrow> safe_faults w \<longrightarrow> fst x = Inr () \<and> last (trace (snd (snd x))) = PsmStop"
proof (rule scan_loop.raw_induct[where P = "\<lambda>api p w x. safe_psm api \<longrightarrow> safe_faults w
          \<longrightarrow> fst x = Inr () \<and> last (trace (snd (snd x))) = PsmStop", OF _ assms], goal_cases)
  case (1 loop api p w x)
  show ?case
  proof (intro impI)
    assume sp: "safe_psm api" and sf: "safe_faults w"
    obtain quit p1 where q: "psm_should_quit api p = (quit, p1)"
      by (cases "psm_should_quit api p")
    obtain res p2 w2 where per: "scan_period api p1 w = (res, p2, w2)"
      by (cases "scan_period api p1 w")
    from scan_period_safe[OF sp sf, of p1] per have res: "res = Inr ()" and s2: "safe_faults w2"
      by simp_all
    show "fst x = Inr () \<and> last (trace (snd (snd x))) = PsmStop"
    proof (cases quit)
      case True
      with 1(2) q show ?thesis by (auto simp: emit_def)
    next
      case False
      with 1(2) q per res have "loop api p2 w2 = Some x" by simp
      from 1(1)[OF this] sp s2 show ?thesis by simp
    qed
  qed
qed

text \<open>
  C9. Neither step of a scan lets an error of class \<open>Exception\<close> through: what the
  statements inside its \<open>try\<close> raise is caught and printed, and the step returns
  normally. When the controller and the operating system raise errors only, a scan
  period always completes, whatever the inbound slot holds and whichever calls
  fail; the loop then ends in one way only, by \<open>psm.should_quit()\<close> answering yes
  and \<open>psm.stop()\<close> being called, and it does end as soon as the controller asks.
\<close>

theorem scan_survives_errors:
  "(\<forall>e. fst (update_inputs api p w) = Inl e \<longrightarrow> \<not> is_Exception e)
   \<and> (\<forall>e. fst (update_outputs api p w) = Inl e \<longrightarrow> \<not> is_Exception e)
   \<and> (\<forall>e p1 w1. update_inputs_body api p w = (Inl e, p1, w1) \<and> is_Exception e
         \<longrightarrow> update_inputs api p w = (Inr (), p1, emit (Print (PsmInputsError e)) w1))
   \<and> (\<forall>e w1. update_outputs_body api p w = (Inl e, w1) \<and> is_Exception e
         \<longrightarrow> update_outputs api p w = (Inr (), emit (Print (PsmOutputsError e)) w1))
   \<and> (safe_psm api \<and> safe_faults w
         \<longrightarrow> fst (scan_period api p w) = Inr ()
           \<and> safe_faults (snd (snd (scan_period api p w)))
           \<and> (\<forall>x. scan_loop api p w = Some x
                 \<longrightarrow> fst x = Inr () \<and> last (trace (snd (snd x))) = PsmStop)
           \<and> (\<forall>n. stop_asked api n p w \<longrightarrow> scan_loop api p w = scan_for api n p w
                                              \<and> scan_loop api p w \<noteq> None))"
proof (intro conjI)
  show "\<forall>e. fst (update_inputs api p w) = Inl e \<longrightarrow> \<not> is_Exception e"
    by (intro allI impI) (rule update_inputs_propagates)
  show "\<forall>e. fst (update_outputs api p w) = Inl e \<longrightarrow> \<not> is_Exception e"
    by (intro allI impI) (rule update_outputs_propagates)
  show "\<forall>e p1 w1. update_inputs_body api p w = (Inl e, p1, w1) \<and> is_Exception e
         \<longrightarrow> update_inputs api p w = (Inr (), p1, emit (Print (PsmInputsError e)) w1)"
    by (simp add: update_inputs_def)
  show "\<forall>e w1. update_outputs_body api p w = (Inl e, w1) \<and> is_Exception e
         \<longrightarrow> update_outputs api p w = (Inr (), emit (Print (PsmOutputsError e)) w1)"
    by (simp add: update_outputs_def)
  show "safe_psm api \<and> safe_faults w
         \<longrightarrow> fst (scan_period api p w) = Inr ()
           \<and> safe_faults (snd (snd (scan_period api p w)))
           \<and> (\<forall>x. scan_loop api p w = Some x
                 \<longrightarrow> fst x = Inr () \<and> last (trace (snd (snd x))) = PsmStop)
           \<and> (\<forall>n. stop_asked api n p w \<longrightarrow> scan_loop api p w = scan_for api n p w
                                              \<and> scan_loop api p w \<noteq> None)"
  proof (intro impI)
    assume "safe_psm api \<and> safe_faults w"
    then have sp: "safe_psm api" and sf: "safe_faults w" by simp_all
    have a: "fst x = Inr () \<and> last (trace (snd (snd x))) = PsmStop"
      if "scan_loop api p w = Some x" for x
      using scan_loop_only_stop[OF that] sp sf by simp
    have b: "scan_loop api p w = scan_for api n p w \<and> scan_loop api p w \<noteq> None"
      if "stop_asked api n p w" for n
    proof -
      from stop_asked_scan_for[OF sp sf that] obtain x where x: "scan_for api n p w = Some x"
        by blast
      from scan_for_loop[OF x] x show ?thesis by simp
    qed
    from scan_period_safe[OF sp sf, of p] a b
    show "fst (scan_period api p w) = Inr ()
           \<and> safe_faults (snd (snd (scan_period api p w)))
           \<and> (\<forall>x. scan_loop api p w = Some x
                 \<longrightarrow> fst x = Inr () \<and> last (trace (snd (snd x))) = PsmStop)
           \<and> (\<forall>n. stop_asked api n p w \<longrightarrow> scan_loop api p w = scan_for api n p w
                                              \<and> scan_loop api p w \<noteq> None)"
      by blast
  qed
qed

lemma demo_psm_safe: "safe_psm demo_psm"
  by (auto simp: safe_psm_def demo_psm_def is_Exception_def split: if_splits option.splits)

lemma demo_bad_inputs_body:
  "update_inputs_body demo_psm (n, [(''QX0.0'', JBool True)])
       (faulty_world ''{'' [None, None, Some OSError]) =
     (Inl JSONDecodeError, (n, [(''QX0.0'', JBool True)]), faulty_world ''{'' [Some OSError])"
  by (simp add: update_inputs_body_def path_exists_def INPUT_PATH_def faulty_world_def
      read_text_def next_fault_def loads_open_brace)

lemma demo_bad_inputs:
  "update_inputs demo_psm (n, [(''QX0.0'', JBool True)])
       (faulty_world ''{'' [None, None, Some OSError]) =
     (Inr (), (n, [(''QX0.0'', JBool True)]),
      emit (Print (PsmInputsError JSONDecodeError)) (faulty_world ''{'' [Some OSError]))"
  by (simp add: update_inputs_def demo_bad_inputs_body is_Exception_def)

lemma demo_bad_outputs:
  "update_outputs demo_psm (n, [(''QX0.0'', JBool True)])
       (emit (Print (PsmInputsError JSONDecodeError)) (faulty_world ''{'' [Some OSError])) =
     (Inr (),
      \<lparr>files = [''/tmp/input.json'' \<mapsto> ''{''], faults = [],
       temp_names = [''k3x9_a0b'', ''q_7tt2mz''],
       trace = [Print (PsmInputsError JSONDecodeError), GetVar ''QX0.0'',
                Print (PsmOutputsError OSError)]\<rparr>)"
  by (simp add: update_outputs_def update_outputs_body_def OUTPUT_VARS_def demo_psm_def
      atomic_write_json_def write_temp_def named_temporary_file_def next_fault_def
      faulty_world_def emit_def is_Exception_def)

lemma demo_bad_period:
  "scan_period demo_psm (n, [(''QX0.0'', JBool True)])
       (faulty_world ''{'' [None, None, Some OSError]) =
     (Inr (), (n, [(''QX0.0'', JBool True)]),
      \<lparr>files = [''/tmp/input.json'' \<mapsto> ''{''], faults = [],
       temp_names = [''k3x9_a0b'', ''q_7tt2mz''],
       trace = [Print (PsmInputsError JSONDecodeError), GetVar ''QX0.0'',
                Print (PsmOutputsError OSError)]\<rparr>)"
  by (simp add: scan_period_def demo_bad_inputs demo_bad_outputs)

lemma demo_should_quit: "psm_should_quit demo_psm (n, vars) = (n = 0, (n - 1, vars))"
  by (simp add: demo_psm_def)

theorem scan_survives_errors_witness:
  "update_inputs_body demo_psm (1, [(''QX0.0'', JBool True)])
       (faulty_world ''{'' [None, None, Some OSError])
     = (Inl JSONDecodeError, (1, [(''QX0.0'', JBool True)]), faulty_world ''{'' [Some OSError])
   \<and> is_Exception JSONDecodeError
   \<and> update_inputs demo_psm (1, [(''QX0.0'', JBool True)])
         (faulty_world ''{'' [None, None, Some OSError])
       = (Inr (), (1, [(''QX0.0'', JBool True)]),
          emit (Print (PsmInputsError JSONDecodeError)) (faulty_world ''{'' [Some OSError]))
   \<and> safe_psm demo_psm \<and> safe_faults (faulty_world ''{'' [None, None, Some OSError])
   \<and> fst (scan_period demo_psm (1, [(''QX0.0'', JBool True)])
             (faulty_world ''{'' [None, None, Some OSError])) = Inr ()
   \<and> stop_asked demo_psm 2 (1, [(''QX0.0'', JBool True)])
         (faulty_world ''{'' [None, None, Some OSError])
   \<and> scan_loop demo_psm (1, [(''QX0.0'', JBool True)])
         (faulty_world ''{'' [None, None, Some OSError]) \<noteq> None"
proof -
  let ?p = "(1::nat, [(''QX0.0'', JBool True)])"
  let ?w = "faulty_world ''{'' [None, None, Some OSError]"
  note inst = scan_survives_errors[of demo_psm ?p ?w]
  have ex: "is_Exception JSONDecodeError" by (simp add: is_Exception_def)
  have sf: "safe_faults ?w"
    by (simp add: safe_faults_def faulty_world_def is_Exception_def)
  have sa: "stop_asked demo_psm 2 ?p ?w"
    by (simp add: numeral_2_eq_2 demo_should_quit demo_bad_period)
  from inst demo_bad_inputs_body[of 1] ex
  have ui: "update_inputs demo_psm ?p ?w
       = (Inr (), ?p, emit (Print (PsmInputsError JSONDecodeError)) (faulty_world ''{'' [Some OSError]))"
    by blast
  from inst demo_psm_safe sf sa
  have per: "fst (scan_period demo_psm ?p ?w) = Inr ()" and lp: "scan_loop demo_psm ?p ?w \<noteq> None"
    by blast+
  from demo_bad_inputs_body[of 1] ex ui demo_psm_safe sf per sa lp show ?thesis
    by (simp only: simp_thms)
qed

section \<open>The round trip through a slot\<close>

lemma hex_val_hex_digit: "k < 16 \<Longrightarrow> hex_val (hex_digit k) = Some k"
proof -
  assume "k < 16"
  then have "k = 0 \<or> k = 1 \<or> k = 2 \<or> k = 3 \<or> k = 4 \<or> k = 5 \<or> k = 6 \<or> k = 7 \<or> k = 8
             \<or> k = 9 \<or> k = 10 \<or> k = 11 \<or> k = 12 \<or> k = 13 \<or> k = 14 \<or> k = 15"
    by arith
  then show ?thesis
    by (elim disjE) (simp_all add: hex_digit_def hex_val_def)
qed

lemma scan_string_escape:
  "scan_string (escape_char c @ t) = cons_str c (scan_string t)"
proof -
  let ?n = "of_char c :: nat"
  have n: "?n < 256" by simp
  consider (quote) "c = CHR 0x22" | (bs) "c = CHR 0x5C" | (nl) "c = CHR 0x0A" | (cr) "c = CHR 0x0D"
    | (tab) "c = CHR 0x09" | (b) "c = CHR 0x08" | (f) "c = CHR 0x0C"
    | (plain) "c \<noteq> CHR 0x22" "c \<noteq> CHR 0x5C" "c \<noteq> CHR 0x0A" "c \<noteq> CHR 0x0D" "c \<noteq> CHR 0x09"
        "c \<noteq> CHR 0x08" "c \<noteq> CHR 0x0C" "32 \<le> ?n \<and> ?n \<le> 126"
    | (other) "c \<noteq> CHR 0x22" "c \<noteq> CHR 0x5C" "c \<noteq> CHR 0x0A" "c \<noteq> CHR 0x0D" "c \<noteq> CHR 0x09"
        "c \<noteq> CHR 0x08" "c \<noteq> CHR 0x0C" "\<not> (32 \<le> ?n \<and> ?n \<le> 126)"
    by blast
  then show ?thesis
  proof cases
    case quote then show ?thesis by (simp add: escape_char_def unescape_def)
  next
    case bs then show ?thesis by (simp add: escape_char_def unescape_def)
  next
    case nl then show ?thesis by (simp add: escape_char_def unescape_def)
  next
    case cr then show ?thesis by (simp add: escape_char_def unescape_def)
  next
    case tab then show ?thesis by (simp add: escape_char_def unescape_def)
  next
    case b then show ?thesis by (simp add: escape_char_def unescape_def)
  next
    case f then show ?thesis by (simp add: escape_char_def unescape_def)
  next
    case plain
    then show ?thesis by (simp add: escape_char_def)
  next
    case other
    have h0: "hex_val CHR ''0'' = Some 0" by (simp add: hex_val_def)
    have "?n div 16 < 16" using n by arith
    then have h1: "hex_val (hex_digit (?n div 16)) = Some (?n div 16)"
      by (rule hex_val_hex_digit)
    have h2: "hex_val (hex_digit (?n mod 16)) = Some (?n mod 16)"
      by (intro hex_val_hex_digit) simp
    have same: "char_of (?n div 16 * 16 + ?n mod 16) = c"
      by simp
    from other show ?thesis
      by (simp add: escape_char_def h0 h1 h2 same Let_def)
  qed
qed

lemma scan_string_encoded:
  "scan_string (concat (map escape_char s) @ CHR 0x22 # rest) = Some (s, rest)"
  by (induction s) (simp_all add: scan_string_escape cons_str_def)

lemma digit_char_props:
  assumes "d < 10"
  shows "is_digit (digit_char d)" and "digit_val (digit_char d) = d"
    and "digit_char d = CHR ''0'' \<longleftrightarrow> d = 0" and "digit_char d \<noteq> CHR ''-''"
    and "digit_char d \<noteq> CHR 0x22" and "digit_char d \<noteq> CHR ''{''" and "digit_char d \<noteq> CHR ''[''"
    and "digit_char d \<noteq> CHR ''n''" and "digit_char d \<noteq> CHR ''t''" and "digit_char d \<noteq> CHR ''f''"
    and "\<not> is_ws (digit_char d)" and "digit_char d \<noteq> CHR '']''" and "digit_char d \<noteq> CHR ''}''"
proof -
  from assms have "d = 0 \<or> d = 1 \<or> d = 2 \<or> d = 3 \<or> d = 4 \<or> d = 5 \<or> d = 6 \<or> d = 7 \<or> d = 8
             \<or> d = 9"
    by arith
  then show "is_digit (digit_char d)" and "digit_val (digit_char d) = d"
    and "digit_char d = CHR ''0'' \<longleftrightarrow> d = 0" and "digit_char d \<noteq> CHR ''-''"
    and "digit_char d \<noteq> CHR 0x22" and "digit_char d \<noteq> CHR ''{''" and "digit_char d \<noteq> CHR ''[''"
    and "digit_char d \<noteq> CHR ''n''" and "digit_char d \<noteq> CHR ''t''" and "digit_char d \<noteq> CHR ''f''"
    and "\<not> is_ws (digit_char d)" and "digit_char d \<noteq> CHR '']''" and "digit_char d \<noteq> CHR ''}''"
    by (elim disjE; simp add: digit_char_def is_digit_def digit_val_def is_ws_def)+
qed

lemma digits_all_digit: "list_all is_digit (digits n)"
proof (induction n rule: digits.induct)
  case (1 n)
  show ?case
  proof (cases "n < 10")
    case True
    then show ?thesis by (subst digits.simps) (simp add: digit_char_props)
  next
    case False
    with 1 show ?thesis by (subst digits.simps) (simp add: digit_char_props)
  qed
qed

lemma digits_not_Nil: "digits n \<noteq> []"
  by (subst digits.simps) simp

lemma nat_of_digits_snoc: "nat_of_digits (ds @ [c]) = 10 * nat_of_digits ds + digit_val c"
  by (simp add: nat_of_digits_def)

lemma nat_of_digits_digits: "nat_of_digits (digits n) = n"
proof (induction n rule: digits.induct)
  case (1 n)
  show ?case
  proof (cases "n < 10")
    case True
    then show ?thesis
      by (subst digits.simps) (simp add: nat_of_digits_def digit_char_props)
  next
    case False
    with 1 show ?thesis
      by (subst digits.simps) (simp add: nat_of_digits_snoc digit_char_props)
  qed
qed

lemma hd_digits_zero: "hd (digits n) = CHR ''0'' \<longleftrightarrow> n = 0"
proof (induction n rule: digits.induct)
  case (1 n)
  show ?case
  proof (cases "n < 10")
    case True
    then show ?thesis by (subst digits.simps) (simp add: digit_char_props)
  next
    case False
    then have "n div 10 \<noteq> 0" by simp
    with 1 False show ?thesis
      by (subst digits.simps) (simp add: digits_not_Nil)
  qed
qed

lemma digits_zero: "digits 0 = ''0''"
  by (subst digits.simps) (simp add: digit_char_def)

lemma takeWhile_digits:
  "no_digit_next r \<Longrightarrow> takeWhile is_digit (digits n @ r) = digits n"
  using digits_all_digit[of n]
  by (cases r) (auto simp: no_digit_next_def takeWhile_append list_all_iff)

lemma dropWhile_digits:
  "no_digit_next r \<Longrightarrow> dropWhile is_digit (digits n @ r) = r"
  using digits_all_digit[of n]
  by (cases r) (auto simp: no_digit_next_def dropWhile_append list_all_iff)

lemma after_value_no_digit: "after_value r \<Longrightarrow> no_digit_next r"
  by (auto simp: after_value_def no_digit_next_def is_digit_def split: list.splits)

lemma finish_int_after_value:
  "after_value r \<Longrightarrow> finish_int neg n r = Some (JInt (if neg then - int n else int n), r)"
  by (auto simp: after_value_def finish_int_def split: list.splits)

lemma parse_unsigned_digits:
  assumes "after_value r"
  shows "parse_unsigned neg (digits n @ r) = Some (JInt (if neg then - int n else int n), r)"
proof (cases "n = 0")
  case True
  with assms show ?thesis
    by (simp add: digits_zero parse_unsigned_def finish_int_after_value)
next
  case False
  obtain c cs where d: "digits n = c # cs" using digits_not_Nil[of n] by (cases "digits n") auto
  from hd_digits_zero[of n] False d have c0: "c \<noteq> CHR ''0''" by simp
  from digits_all_digit[of n] d have cd: "is_digit c" by simp
  have "parse_unsigned neg (digits n @ r)
          = finish_int neg (nat_of_digits (takeWhile is_digit (digits n @ r)))
              (dropWhile is_digit (digits n @ r))"
    using c0 cd by (simp add: parse_unsigned_def d)
  with assms show ?thesis
    by (simp add: takeWhile_digits dropWhile_digits after_value_no_digit nat_of_digits_digits
        finish_int_after_value)
qed

lemma parse_int_encoded:
  assumes "after_value r"
  shows "parse_int (encode_int i @ r) = Some (JInt i, r)"
proof (cases "i < 0")
  case True
  with parse_unsigned_digits[OF assms, of True "nat (- i)"] show ?thesis
    by (simp add: parse_int_def encode_int_def)
next
  case False
  obtain c cs where d: "digits (nat i) = c # cs"
    using digits_not_Nil[of "nat i"] by (cases "digits (nat i)") auto
  from digits_all_digit[of "nat i"] d have "is_digit c" by simp
  then have "c \<noteq> CHR ''-''" by (auto simp: is_digit_def)
  with parse_unsigned_digits[OF assms, of False "nat i"] False d show ?thesis
    by (simp add: parse_int_def encode_int_def)
qed

text \<open>The first character of an encoded integer: a digit or the sign.\<close>

lemma encode_int_first:
  "\<exists>c cs. encode_int i = c # cs \<and> (is_digit c \<or> c = CHR ''-'')"
proof (cases "i < 0")
  case True
  then show ?thesis by (simp add: encode_int_def)
next
  case False
  obtain c cs where d: "digits (nat i) = c # cs"
    using digits_not_Nil[of "nat i"] by (cases "digits (nat i)") auto
  from digits_all_digit[of "nat i"] d have "is_digit c" by simp
  with False d show ?thesis by (simp add: encode_int_def)
qed

lemma parse_value_int:
  assumes "after_value r"
  shows "parse_value (encode_int i @ r) = Some (JInt i, r)"
proof -
  from encode_int_first[of i] obtain c cs where e: "encode_int i = c # cs"
    and c: "is_digit c \<or> c = CHR ''-''" by blast
  from c have "c \<noteq> CHR 0x22" "c \<noteq> CHR ''{''" "c \<noteq> CHR ''[''" "c \<noteq> CHR ''n''"
    "c \<noteq> CHR ''t''" "c \<noteq> CHR ''f''"
    by (auto simp: is_digit_def)
  then have "parse_value (c # cs @ r) = parse_int (c # cs @ r)"
    by (subst parse_value.simps) (auto simp: take_Cons' split: list.splits)
  with parse_int_encoded[OF assms, of i] e show ?thesis by simp
qed

lemma skip_ws_first: "\<not> is_ws c \<Longrightarrow> skip_ws (c # cs) = c # cs"
  by simp

lemma dumps_first: "\<exists>c cs. dumps v = c # cs \<and> value_first c"
proof (cases v)
  case JNull
  then show ?thesis by (simp add: value_first_def is_ws_def)
next
  case (JBool b)
  then show ?thesis by (simp add: value_first_def is_ws_def)
next
  case (JInt i)
  from encode_int_first[of i] obtain c cs where "encode_int i = c # cs"
    and "is_digit c \<or> c = CHR ''-''" by blast
  with JInt show ?thesis by (auto simp: value_first_def is_ws_def is_digit_def)
next
  case (JStr s)
  then show ?thesis by (simp add: encode_str_def value_first_def is_ws_def)
next
  case (JArr xs)
  then show ?thesis by (simp add: value_first_def is_ws_def)
next
  case (JObj kvs)
  then show ?thesis by (simp add: value_first_def is_ws_def)
qed

lemma join_with_Cons:
  "ys \<noteq> [] \<Longrightarrow> join_with sep (x # ys) = x @ sep @ join_with sep ys"
  by (cases ys) simp_all

lemma join_dumps_first:
  "xs \<noteq> [] \<Longrightarrow> \<exists>c cs. join_with '','' (map dumps xs) = c # cs \<and> value_first c"
proof (cases xs)
  case Nil
  assume "xs \<noteq> []"
  with Nil show ?thesis by simp
next
  case (Cons x ys)
  from dumps_first[of x] obtain c cs where "dumps x = c # cs" and "value_first c" by blast
  with Cons show ?thesis by (cases ys) auto
qed

lemma parse_elems_encoded:
  assumes "xs \<noteq> []"
    and "\<And>x r. x \<in> set xs \<Longrightarrow> after_value r \<Longrightarrow> parse_value (dumps x @ r) = Some (sort_keys x, r)"
  shows "parse_elems (join_with '','' (map dumps xs) @ CHR '']'' # rest) = Some (map sort_keys xs, rest)"
  using assms
proof (induction xs rule: list_nonempty_induct)
  case (single x)
  have "after_value (CHR '']'' # rest)" by (simp add: after_value_def)
  with single have "parse_value (dumps x @ CHR '']'' # rest) = Some (sort_keys x, CHR '']'' # rest)"
    by simp
  then show ?case
    by (subst parse_elems.simps) (simp add: is_ws_def)
next
  case (cons x xs)
  let ?J = "join_with '','' (map dumps xs) @ CHR '']'' # rest"
  have av: "after_value (CHR '','' # ?J)" by (simp add: after_value_def)
  from cons.hyps have j: "join_with '','' (map dumps (x # xs)) @ CHR '']'' # rest
                          = dumps x @ CHR '','' # ?J"
    by (simp add: join_with_Cons)
  from cons.prems av have pv: "parse_value (dumps x @ CHR '','' # ?J) = Some (sort_keys x, CHR '','' # ?J)"
    by simp
  from join_dumps_first[OF cons.hyps(1)] obtain c cs where
    jc: "join_with '','' (map dumps xs) = c # cs" and "value_first c" by blast
  then have sk: "skip_ws ?J = ?J" by (simp add: value_first_def)
  have ih: "parse_elems ?J = Some (map sort_keys xs, rest)"
    by (rule cons.IH) (simp add: cons.prems)
  show ?case
    unfolding j
    by (subst parse_elems.simps) (simp add: pv is_ws_def sk ih)
qed

lemma member_text_eq: "(\<lambda>(k, v). encode_str k @ '':'' @ dumps v) = member_text"
  by (auto simp: member_text_def fun_eq_iff)

lemma member_text_Cons:
  "member_text (k, v) @ t = CHR 0x22 # concat (map escape_char k) @ CHR 0x22 # CHR '':'' # dumps v @ t"
  by (simp add: member_text_def encode_str_def)

lemma join_members_first:
  "kvs \<noteq> [] \<Longrightarrow> \<exists>cs. join_with '','' (map member_text kvs) = CHR 0x22 # cs"
proof (cases kvs)
  case Nil
  assume "kvs \<noteq> []"
  with Nil show ?thesis by simp
next
  case (Cons kv ys)
  then show ?thesis by (cases ys) (auto simp: member_text_def encode_str_def)
qed

lemma parse_member_step:
  assumes pv: "parse_value (dumps v @ t) = Some (sort_keys v, t)"
  shows "parse_members (member_text (k, v) @ t) =
           (case skip_ws t of
              [] \<Rightarrow> None
            | d # r3 \<Rightarrow>
                if d = CHR ''}'' then Some ([(k, sort_keys v)], r3)
                else if d = CHR '','' \<and> length r3 < length (member_text (k, v) @ t) then
                  (case parse_members (skip_ws r3) of
                     None \<Rightarrow> None
                   | Some (ps, r4) \<Rightarrow> Some ((k, sort_keys v) # ps, r4))
                else None)"
proof -
  from dumps_first[of v] obtain c cs where d: "dumps v = c # cs" and "value_first c" by blast
  then have sk: "skip_ws (dumps v @ t) = dumps v @ t" by (simp add: value_first_def)
  have sc: "scan_string (concat (map escape_char k) @ CHR 0x22 # CHR '':'' # dumps v @ t)
              = Some (k, CHR '':'' # dumps v @ t)"
    by (rule scan_string_encoded)
  show ?thesis
    unfolding member_text_Cons
    by (subst parse_members.simps) (simp add: sc is_ws_def sk pv)
qed

lemma parse_members_encoded:
  assumes "kvs \<noteq> []"
    and "\<And>k v r. (k, v) \<in> set kvs \<Longrightarrow> after_value r
            \<Longrightarrow> parse_value (dumps v @ r) = Some (sort_keys v, r)"
  shows "parse_members (join_with '','' (map member_text kvs) @ CHR ''}'' # rest)
           = Some (map (\<lambda>(k, v). (k, sort_keys v)) kvs, rest)"
  using assms
proof (induction kvs rule: list_nonempty_induct)
  case (single kv)
  obtain k v where kv: "kv = (k, v)" by (cases kv)
  have "after_value (CHR ''}'' # rest)" by (simp add: after_value_def)
  with single kv have "parse_value (dumps v @ CHR ''}'' # rest) = Some (sort_keys v, CHR ''}'' # rest)"
    by simp
  from parse_member_step[OF this, of k] kv show ?case
    by (simp add: is_ws_def)
next
  case (cons kv kvs)
  obtain k v where kv: "kv = (k, v)" by (cases kv)
  let ?J = "join_with '','' (map member_text kvs) @ CHR ''}'' # rest"
  have av: "after_value (CHR '','' # ?J)" by (simp add: after_value_def)
  from cons.hyps have j: "join_with '','' (map member_text (kv # kvs)) @ CHR ''}'' # rest
                          = member_text (k, v) @ CHR '','' # ?J"
    by (simp add: join_with_Cons kv)
  have pv: "parse_value (dumps v @ CHR '','' # ?J) = Some (sort_keys v, CHR '','' # ?J)"
    by (rule cons.prems[where k = k]) (simp_all add: kv av)
  from join_members_first[OF cons.hyps(1)] obtain cs where
    "join_with '','' (map member_text kvs) = CHR 0x22 # cs" by blast
  then have sk: "skip_ws ?J = ?J" by (simp add: is_ws_def)
  have ih: "parse_members ?J = Some (map (\<lambda>(k, v). (k, sort_keys v)) kvs, rest)"
  proof (rule cons.IH)
    fix k' v' r
    assume "(k', v') \<in> set kvs" and "after_value r"
    then show "parse_value (dumps v' @ r) = Some (sort_keys v', r)"
      by (intro cons.prems[where k = k']) simp_all
  qed
  show ?case
    unfolding j
    by (simp add: parse_member_step[OF pv] is_ws_def sk ih kv)
qed

lemma dict_set_new: "k \<notin> fst ` set d \<Longrightarrow> dict_set k v d = d @ [(k, v)]"
  by (induction d) auto

lemma foldl_dict_set:
  "distinct (map fst (d @ ps)) \<Longrightarrow> foldl (\<lambda>d (k, v). dict_set k v d) d ps = d @ ps"
proof (induction ps arbitrary: d)
  case Nil
  then show ?case by simp
next
  case (Cons kv ps)
  obtain k v where kv: "kv = (k, v)" by (cases kv)
  from Cons.prems kv have "k \<notin> fst ` set d" by auto
  then have "dict_set k v d = d @ [(k, v)]" by (rule dict_set_new)
  moreover from Cons.prems kv have "distinct (map fst ((d @ [(k, v)]) @ ps))" by simp
  ultimately show ?case using Cons.IH[of "d @ [(k, v)]"] kv by simp
qed

lemma dict_of_pairs_distinct: "distinct (map fst ps) \<Longrightarrow> dict_of_pairs ps = ps"
  using foldl_dict_set[of "[]" ps] by (simp add: dict_of_pairs_def)

lemma parse_value_dumps:
  "wf_json v \<Longrightarrow> after_value r \<Longrightarrow> parse_value (dumps v @ r) = Some (sort_keys v, r)"
proof (induction v arbitrary: r)
  case JNull
  then show ?case by (subst parse_value.simps) simp
next
  case (JBool b)
  then show ?case by (subst parse_value.simps) simp
next
  case (JInt i)
  then show ?case by (simp add: parse_value_int)
next
  case (JStr s)
  have "scan_string (concat (map escape_char s) @ CHR 0x22 # r) = Some (s, r)"
    by (rule scan_string_encoded)
  then show ?case by (subst parse_value.simps) (simp add: encode_str_def)
next
  case (JArr xs)
  show ?case
  proof (cases "xs = []")
    case True
    then show ?thesis by (subst parse_value.simps) (simp add: is_ws_def)
  next
    case False
    from join_dumps_first[OF False] obtain c cs where
      jc: "join_with '','' (map dumps xs) = c # cs" and vf: "value_first c" by blast
    have el: "parse_elems (join_with '','' (map dumps xs) @ CHR '']'' # r) = Some (map sort_keys xs, r)"
    proof (rule parse_elems_encoded[OF False])
      fix x r'
      assume "x \<in> set xs" and "after_value r'"
      with JArr.IH[of x r'] JArr.prems(1) show "parse_value (dumps x @ r') = Some (sort_keys x, r')"
        by (simp add: list_all_iff)
    qed
    from vf have nw: "\<not> is_ws c" and nb: "c \<noteq> CHR '']''" by (simp_all add: value_first_def)
    have d: "dumps (JArr xs) @ r = CHR ''['' # (join_with '','' (map dumps xs) @ CHR '']'' # r)"
      by simp
    have "parse_value (CHR ''['' # (join_with '','' (map dumps xs) @ CHR '']'' # r))
            = Some (JArr (map sort_keys xs), r)"
      by (subst parse_value.simps) (simp add: jc el[unfolded jc append_Cons] nw nb)
    then show ?thesis
      unfolding d by simp
  qed
next
  case (JObj kvs)
  let ?s = "sort_key fst kvs"
  show ?case
  proof (cases "kvs = []")
    case True
    then show ?thesis by (subst parse_value.simps) (simp add: is_ws_def)
  next
    case False
    then have ne: "?s \<noteq> []" by (metis length_0_conv length_sort)
    from join_members_first[OF ne] obtain cs where
      jc: "join_with '','' (map member_text ?s) = CHR 0x22 # cs" by blast
    have mem: "parse_members (join_with '','' (map member_text ?s) @ CHR ''}'' # r)
                 = Some (map (\<lambda>(k, v). (k, sort_keys v)) ?s, r)"
    proof (rule parse_members_encoded[OF ne])
      fix k v r'
      assume "(k, v) \<in> set ?s" and av: "after_value r'"
      then have in_kvs: "(k, v) \<in> set kvs" by simp
      with JObj.prems(1) have "wf_json v" by (auto simp: list_all_iff)
      moreover have "v \<in> Basic_BNFs.snds (k, v)" by simp
      ultimately show "parse_value (dumps v @ r') = Some (sort_keys v, r')"
        using JObj.IH[OF in_kvs _ _ av] by blast
    qed
    from JObj.prems(1) have "distinct (map fst ?s)"
      by (simp add: distinct_map)
    then have "distinct (map fst (map (\<lambda>(k, v). (k, sort_keys v)) ?s))"
      by (simp add: case_prod_unfold comp_def)
    then have dp: "dict_of_pairs (map (\<lambda>(k, v). (k, sort_keys v)) ?s)
                     = map (\<lambda>(k, v). (k, sort_keys v)) ?s"
      by (rule dict_of_pairs_distinct)
    have d: "dumps (JObj kvs) @ r
               = CHR ''{'' # (join_with '','' (map member_text ?s) @ CHR ''}'' # r)"
    proof -
      have "(\<lambda>p. encode_str (fst p) @ CHR '':'' # dumps (snd p)) = member_text"
        by (simp add: member_text_def fun_eq_iff)
      then show ?thesis by (simp add: case_prod_unfold)
    qed
    have "parse_value (CHR ''{'' # (join_with '','' (map member_text ?s) @ CHR ''}'' # r))
            = Some (JObj (map (\<lambda>(k, v). (k, sort_keys v)) ?s), r)"
      by (subst parse_value.simps) (simp add: jc mem[unfolded jc append_Cons] dp is_ws_def)
    then show ?thesis
      unfolding d by simp
  qed
qed

lemma json_loads_dumps: "wf_json v \<Longrightarrow> json_loads (dumps v) = Some (sort_keys v)"
proof -
  assume wf: "wf_json v"
  from dumps_first[of v] obtain c cs where d: "dumps v = c # cs" and "value_first c" by blast
  then have sk: "skip_ws (dumps v) = dumps v" by (simp add: value_first_def)
  have "after_value []" by (simp add: after_value_def)
  from parse_value_dumps[OF wf this] show ?thesis
    by (simp add: json_loads_def sk)
qed

lemma deep_eq_sort_keys: "wf_json v \<Longrightarrow> deep_eq (sort_keys v) v"
proof (induction v)
  case (JArr xs)
  then have "\<forall>x \<in> set xs. deep_eq (sort_keys x) x" by (simp add: list_all_iff)
  then show ?case by (simp add: list_all2_map1 list_all2_same)
next
  case (JObj kvs)
  have "case map_of kvs k of None \<Rightarrow> False | Some v' \<Rightarrow> deep_eq (sort_keys v) v'"
    if "(k, v) \<in> set kvs" for k v
  proof -
    from JObj.prems that have "map_of kvs k = Some v" and "wf_json v"
      by (auto simp: list_all_iff)
    moreover have "v \<in> Basic_BNFs.snds (k, v)" by simp
    ultimately show ?thesis using JObj.IH[OF that] by simp
  qed
  then show ?case by (auto simp: list_all_iff)
qed simp_all




lemma demo_loads_ab: "json_loads ''{\"a\":true,\"b\":1}'' = Some (JObj [(''a'', JBool True), (''b'', JInt 1)])"
  by code_simp


section \<open>Values pass through unchecked\<close>

lemma update_inputs_trace:
  assumes "files w INPUT_PATH = Some body" and "json_loads body = Some (JObj items)"
    and "no_fault 2 w" and "never_raises api (wanted items)"
  shows "trace (snd (snd (update_inputs api p w)))
           = trace w @ map (\<lambda>(n, v). SetVar n v) (wanted items)"
proof -
  from read_text_ok[OF assms(3,1)] obtain w1 where
    rd: "read_text INPUT_PATH w = (Inr body, w1)" and w1: "trace w1 = trace w"
    by blast
  obtain r2 p2 w2 where ai: "apply_items api items p w1 = (r2, p2, w2)"
    by (cases "apply_items api items p w1")
  from apply_items_never_raises[OF assms(4), of p w1] ai have r2: "r2 = Inr ()" by simp
  from assms(1,2) rd ai r2 have "update_inputs api p w = (Inr (), p2, w2)"
    by (simp add: update_inputs_def update_inputs_body_def path_exists_def)
  with apply_items_trace[OF ai] w1 attempted_never_raises[OF assms(4), of p] show ?thesis
    by simp
qed

lemma wanted_member:
  "(k, v) \<in> set items \<Longrightarrow> startswith k ''%'' \<Longrightarrow> (drop 1 k, v) \<in> set (wanted items)"
  by (force simp: wanted_def)

lemma SetVar_in_trace:
  "(n, v) \<in> set cs \<Longrightarrow> SetVar n v \<in> set (tr @ map (\<lambda>(n, v). SetVar n v) cs)"
  by force

text \<open>
  C10. Nothing in the pipeline looks at a value. The Inbound Adapter writes the
  whole decoded object, whatever JSON values its entries hold. The Scan Driver
  passes the value of every entry whose key has the sentinel to \<open>psm.set_var\<close>
  as it was decoded, whatever JSON value it is; so a value that went through the
  inbound slot reaches the controller deep-equal to what the adapter decoded. Of a
  key, both programs look at the first character only.
\<close>

theorem values_forwarded_unchecked:
  "(\<forall>t items. utf8_decode payload = Some t \<and> json_loads t = Some (JObj items)
        \<and> no_fault 6 w \<and> name_left (target_directory INPUT_PATH) w
        \<longrightarrow> files (snd (on_message payload w)) INPUT_PATH = Some (dumps (JObj items)))
   \<and> (\<forall>body items k v. files w INPUT_PATH = Some body \<and> json_loads body = Some (JObj items)
        \<and> no_fault 2 w \<and> never_raises api (wanted items)
        \<and> (k, v) \<in> set items \<and> startswith k ''%''
        \<longrightarrow> SetVar (drop 1 k) v \<in> set (trace (snd (snd (update_inputs api p w)))))
   \<and> (\<forall>items k v. wf_json (JObj items) \<and> files w INPUT_PATH = Some (dumps (JObj items))
        \<and> no_fault 2 w
        \<and> never_raises api (wanted (map (\<lambda>(k, v). (k, sort_keys v)) (sort_key fst items)))
        \<and> (k, v) \<in> set items \<and> startswith k ''%''
        \<longrightarrow> SetVar (drop 1 k) (sort_keys v) \<in> set (trace (snd (snd (update_inputs api p w))))
          \<and> deep_eq (sort_keys v) v)
   \<and> (\<forall>k. is_bad_key k = (take 1 k \<noteq> ''%'') \<and> startswith k ''%'' = (take 1 k = ''%''))"
proof (intro conjI allI impI)
  fix t items
  assume a: "utf8_decode payload = Some t \<and> json_loads t = Some (JObj items)
        \<and> no_fault 6 w \<and> name_left (target_directory INPUT_PATH) w"
  obtain r w' where run: "on_message payload w = (r, w')" by (cases "on_message payload w")
  from a have "utf8_decode payload = Some t" and "json_loads t = Some (JObj items)" by blast+
  from on_message_object[OF this run] a run
  show "files (snd (on_message payload w)) INPUT_PATH = Some (dumps (JObj items))"
    by (simp del: dumps.simps)
next
  fix body items k v
  assume a: "files w INPUT_PATH = Some body \<and> json_loads body = Some (JObj items)
        \<and> no_fault 2 w \<and> never_raises api (wanted items)
        \<and> (k, v) \<in> set items \<and> startswith k ''%''"
  then have 1: "files w INPUT_PATH = Some body" and 2: "json_loads body = Some (JObj items)"
    and 3: "no_fault 2 w" and 4: "never_raises api (wanted items)"
    and 5: "(k, v) \<in> set items" and 6: "startswith k ''%''"
    by blast+
  from update_inputs_trace[OF 1 2 3 4, of p] SetVar_in_trace[OF wanted_member[OF 5 6], of "trace w"]
  show "SetVar (drop 1 k) v \<in> set (trace (snd (snd (update_inputs api p w))))"
    by simp
next
  fix items :: "(string \<times> json) list" and k v
  let ?sorted = "map (\<lambda>(k, v). (k, sort_keys v)) (sort_key fst items)"
  assume a: "wf_json (JObj items) \<and> files w INPUT_PATH = Some (dumps (JObj items))
        \<and> no_fault 2 w \<and> never_raises api (wanted ?sorted)
        \<and> (k, v) \<in> set items \<and> startswith k ''%''"
  then have wf: "wf_json (JObj items)" and 1: "files w INPUT_PATH = Some (dumps (JObj items))"
    and 3: "no_fault 2 w" and 4: "never_raises api (wanted ?sorted)"
    and 5: "(k, v) \<in> set items" and 6: "startswith k ''%''"
    by blast+
  from json_loads_dumps[OF wf] have 2: "json_loads (dumps (JObj items)) = Some (JObj ?sorted)"
    by simp
  from 5 have 7: "(k, sort_keys v) \<in> set ?sorted" by force
  from update_inputs_trace[OF 1 2 3 4, of p] SetVar_in_trace[OF wanted_member[OF 7 6], of "trace w"]
  show "SetVar (drop 1 k) (sort_keys v) \<in> set (trace (snd (snd (update_inputs api p w))))"
    by simp
  from wf 5 have "wf_json v" by (auto simp: list_all_iff)
  then show "deep_eq (sort_keys v) v" by (rule deep_eq_sort_keys)
next
  fix k
  show "is_bad_key k = (take 1 k \<noteq> ''%'')" by (simp add: is_bad_key_def startswith_def)
  show "startswith k ''%'' = (take 1 k = ''%'')" by (simp add: startswith_def)
qed

lemma demo_decode_any:
  "utf8_decode ''{\"%MW0\": null, \"%MW1\": [1, {\"b\": null}]}''
     = Some ''{\"%MW0\": null, \"%MW1\": [1, {\"b\": null}]}''"
  by simp

lemma demo_loads_any:
  "json_loads ''{\"%MW0\": null, \"%MW1\": [1, {\"b\": null}]}''
     = Some (JObj [(''%MW0'', JNull), (''%MW1'', JArr [JInt 1, JObj [(''b'', JNull)]])])"
  by code_simp

lemma demo_loads_any_compact:
  "json_loads ''{\"%MW0\":null,\"%MW1\":[1,{\"b\":null}]}''
     = Some (JObj [(''%MW0'', JNull), (''%MW1'', JArr [JInt 1, JObj [(''b'', JNull)]])])"
  by code_simp

lemma demo_dumps_any:
  "dumps (JObj [(''%MW0'', JNull), (''%MW1'', JArr [JInt 1, JObj [(''b'', JNull)]])])
     = ''{\"%MW0\":null,\"%MW1\":[1,{\"b\":null}]}''"
  by (simp add: encode_str_def escape_char_def encode_int_def digits.simps digit_char_def)

theorem values_forwarded_unchecked_witness:
  "utf8_decode ''{\"%MW0\": null, \"%MW1\": [1, {\"b\": null}]}''
     = Some ''{\"%MW0\": null, \"%MW1\": [1, {\"b\": null}]}''
   \<and> json_loads ''{\"%MW0\": null, \"%MW1\": [1, {\"b\": null}]}''
     = Some (JObj [(''%MW0'', JNull), (''%MW1'', JArr [JInt 1, JObj [(''b'', JNull)]])])
   \<and> no_fault 6 (input_world ''{}'') \<and> name_left (target_directory INPUT_PATH) (input_world ''{}'')
   \<and> files (snd (on_message ''{\"%MW0\": null, \"%MW1\": [1, {\"b\": null}]}'' (input_world ''{}'')))
         INPUT_PATH
     = Some ''{\"%MW0\":null,\"%MW1\":[1,{\"b\":null}]}''
   \<and> files (input_world ''{\"%MW0\":null,\"%MW1\":[1,{\"b\":null}]}'') INPUT_PATH
     = Some ''{\"%MW0\":null,\"%MW1\":[1,{\"b\":null}]}''
   \<and> no_fault 2 (input_world ''{\"%MW0\":null,\"%MW1\":[1,{\"b\":null}]}'')
   \<and> never_raises demo_psm
         (wanted [(''%MW0'', JNull), (''%MW1'', JArr [JInt 1, JObj [(''b'', JNull)]])])
   \<and> startswith ''%MW1'' ''%''
   \<and> SetVar ''MW1'' (JArr [JInt 1, JObj [(''b'', JNull)]])
       \<in> set (trace (snd (snd (update_inputs demo_psm (3, [])
                  (input_world ''{\"%MW0\":null,\"%MW1\":[1,{\"b\":null}]}'')))))
   \<and> is_bad_key ''BAD''"
proof -
  let ?P = "''{\"%MW0\": null, \"%MW1\": [1, {\"b\": null}]}''"
  let ?T = "''{\"%MW0\":null,\"%MW1\":[1,{\"b\":null}]}''"
  let ?items = "[(''%MW0'', JNull), (''%MW1'', JArr [JInt 1, JObj [(''b'', JNull)]])]"
  have nf6: "no_fault 6 (input_world ''{}'')"
    by (simp add: no_fault_def input_world_def)
  have td: "target_directory INPUT_PATH = ''/tmp''"
    by (simp add: INPUT_PATH_def target_directory_def dirname_def rstrip_sep_def)
  have nl: "name_left (target_directory INPUT_PATH) (input_world ''{}'')"
    by (simp add: td name_left_def input_world_def temp_path_tmp)
  have f: "files (input_world ?T) INPUT_PATH = Some ?T"
    by (simp add: input_world_def INPUT_PATH_def)
  have nf2: "no_fault 2 (input_world ?T)"
    by (simp add: no_fault_def input_world_def)
  have w: "wanted ?items = [(''MW0'', JNull), (''MW1'', JArr [JInt 1, JObj [(''b'', JNull)]])]"
    by (simp add: wanted_def startswith_def)
  have nr: "never_raises demo_psm (wanted ?items)"
    by (simp add: w never_raises_def demo_psm_def)
  have sw: "startswith ''%MW1'' ''%''" by (simp add: startswith_def)
  have m: "(''%MW1'', JArr [JInt 1, JObj [(''b'', JNull)]]) \<in> set ?items" by simp
  note i1 = values_forwarded_unchecked[of ?P "input_world ''{}''" demo_psm "(3, [])"]
  note i2 = values_forwarded_unchecked[of ?P "input_world ?T" demo_psm "(3, [])"]
  from i1 demo_decode_any demo_loads_any nf6 nl
  have "files (snd (on_message ?P (input_world ''{}''))) INPUT_PATH = Some (dumps (JObj ?items))"
    by blast
  then have a: "files (snd (on_message ?P (input_world ''{}''))) INPUT_PATH = Some ?T"
    by (simp only: demo_dumps_any)
  from i2 f demo_loads_any_compact nf2 nr m sw
  have "SetVar (drop 1 ''%MW1'') (JArr [JInt 1, JObj [(''b'', JNull)]])
          \<in> set (trace (snd (snd (update_inputs demo_psm (3, []) (input_world ?T)))))"
    by blast
  then have b: "SetVar ''MW1'' (JArr [JInt 1, JObj [(''b'', JNull)]])
          \<in> set (trace (snd (snd (update_inputs demo_psm (3, []) (input_world ?T)))))"
    by simp
  from i1 have c: "is_bad_key ''BAD''" by simp
  from demo_decode_any demo_loads_any nf6 nl a f nf2 nr sw b c show ?thesis
    by (simp only: simp_thms)
qed

end
